theory Spec2Isabelle
  imports Main
begin

section \<open>Python values the game relies on\<close>

text \<open>
  The exceptions the program can meet. \<open>IndexError\<close> comes from list indexing and from
  \<open>random.choice\<close> on an empty sequence, \<open>AssertionError\<close> from the \<open>assert\<close> in
  \<open>Nim.play\<close>, \<open>ValueError\<close> from \<open>random.randint\<close> on an empty range, and
  \<open>TransportError\<close> stands for whatever the stream reader raises when a read fails
  (a connection reset, an over-long line).
\<close>

datatype error = IndexError | AssertionError | ValueError | TransportError

text \<open>
  Python list indexing with an \<open>int\<close>: an index from \<open>-len\<close> to \<open>-1\<close> counts from the
  end, anything outside \<open>[-len, len)\<close> raises \<open>IndexError\<close>. \<open>py_index\<close> resolves the
  index to a position, \<open>py_getitem\<close> is \<open>xs[i]\<close> and \<open>py_setitem\<close> is \<open>xs[i] = v\<close>.
\<close>

definition py_index :: "'a list \<Rightarrow> int \<Rightarrow> error + nat" where
  "py_index xs i =
     (let n = int (length xs); j = (if i < 0 then i + n else i)
      in if 0 \<le> j \<and> j < n then Inr (nat j) else Inl IndexError)"

definition py_getitem :: "'a list \<Rightarrow> int \<Rightarrow> error + 'a" where
  "py_getitem xs i =
     (case py_index xs i of Inl e \<Rightarrow> Inl e | Inr k \<Rightarrow> Inr (xs ! k))"

definition py_setitem :: "'a list \<Rightarrow> int \<Rightarrow> 'a \<Rightarrow> error + 'a list" where
  "py_setitem xs i v =
     (case py_index xs i of Inl e \<Rightarrow> Inl e | Inr k \<Rightarrow> Inr (xs[k := v]))"

section \<open>The game engine: class Nim\<close>

record nim =
  piles :: "int list"

text \<open>\<open>Nim.__init__\<close>: three piles of 3, 4 and 5 objects.\<close>

definition nim_init :: nim where
  "nim_init = \<lparr>piles = [3, 4, 5]\<rparr>"

text \<open>
  \<open>Nim.move_is_valid\<close>. The conjunction is evaluated left to right and stops at the
  first false operand, so the list is indexed only when \<open>amount > 0\<close> and
  \<open>pile < len(self._piles)\<close>; the indexing is the one place that can raise.
\<close>

definition move_is_valid :: "nim \<Rightarrow> int \<Rightarrow> int \<Rightarrow> error + bool" where
  "move_is_valid g pile amount =
     (if \<not> amount > 0 then Inr False
      else if \<not> pile < int (length (piles g)) then Inr False
      else case py_getitem (piles g) pile of
             Inl e \<Rightarrow> Inl e
           | Inr v \<Rightarrow> Inr (v \<ge> amount))"

text \<open>
  \<open>Nim.play\<close>: the assertion first, then \<open>self._piles[pile] -= amount\<close>, which reads
  the item and stores the difference at the same index. The result is the outcome
  together with the engine afterwards, so that a raise shows the state it leaves.
\<close>

definition play :: "nim \<Rightarrow> int \<Rightarrow> int \<Rightarrow> (error + unit) \<times> nim" where
  "play g pile amount =
     (case move_is_valid g pile amount of
        Inl e \<Rightarrow> (Inl e, g)
      | Inr ok \<Rightarrow>
          if \<not> ok then (Inl AssertionError, g)
          else (case py_getitem (piles g) pile of
                  Inl e \<Rightarrow> (Inl e, g)
                | Inr v \<Rightarrow>
                    (case py_setitem (piles g) pile (v - amount) of
                       Inl e \<Rightarrow> (Inl e, g)
                     | Inr ps \<Rightarrow> (Inr (), g\<lparr>piles := ps\<rparr>))))"

text \<open>\<open>Nim.can_continue\<close>.\<close>

definition can_continue :: "nim \<Rightarrow> bool" where
  "can_continue g = (sum_list (piles g) \<noteq> 0)"

text \<open>
  The random module. Both \<open>random.choice\<close> and \<open>random.randint\<close> draw through
  \<open>randbelow n\<close>, a number in \<open>[0, n)\<close>; the generator's raw output is the argument
  \<open>r\<close>, so that quantifying over \<open>r\<close> covers every outcome. \<open>choice\<close> raises
  \<open>IndexError\<close> on an empty sequence, \<open>randint a b\<close> raises \<open>ValueError\<close> when
  \<open>b < a\<close>.
\<close>

definition randbelow :: "nat \<Rightarrow> nat \<Rightarrow> nat" where
  "randbelow n r = r mod n"

definition choice :: "nat \<Rightarrow> 'a list \<Rightarrow> error + 'a" where
  "choice r xs =
     (if xs = [] then Inl IndexError else Inr (xs ! randbelow (length xs) r))"

definition randint :: "nat \<Rightarrow> int \<Rightarrow> int \<Rightarrow> error + int" where
  "randint r a b =
     (if b < a then Inl ValueError else Inr (a + int (randbelow (nat (b - a + 1)) r)))"

text \<open>
  \<open>Nim.random_move\<close>: the candidates are the indices of the piles with \<open>x > 0\<close>, in
  order; \<open>r1\<close> is the draw of \<open>choice\<close> and \<open>r2\<close> the draw of \<open>randint\<close>.
\<close>

definition candidates :: "nim \<Rightarrow> int list" where
  "candidates g = map (\<lambda>(i, x). int i) (filter (\<lambda>(i, x). x > 0) (enumerate 0 (piles g)))"

definition random_move :: "nat \<Rightarrow> nat \<Rightarrow> nim \<Rightarrow> error + (int \<times> int)" where
  "random_move r1 r2 g =
     (case choice r1 (candidates g) of
        Inl e \<Rightarrow> Inl e
      | Inr pile \<Rightarrow>
          (case py_getitem (piles g) pile of
             Inl e \<Rightarrow> Inl e
           | Inr v \<Rightarrow>
               (case randint r2 1 v of
                  Inl e \<Rightarrow> Inl e
                | Inr amount \<Rightarrow> Inr (pile, amount))))"

text \<open>
  \<open>Nim.__str__\<close>: one line per pile, the index in bold and the pile as a run of
  yellow asterisks. \<open>str_nat\<close> is \<open>str\<close> on the non-negative indices \<open>enumerate\<close>
  yields; \<open>'*' * n\<close> is empty for \<open>n \<le> 0\<close>.
\<close>

fun str_nat :: "nat \<Rightarrow> string" where
  "str_nat n =
     (if n < 10 then [char_of (48 + n)]
      else str_nat (n div 10) @ [char_of (48 + n mod 10)])"

declare str_nat.simps [simp del]

abbreviation esc :: char where
  "esc \<equiv> CHR 0x1B"

definition nim_str :: "nim \<Rightarrow> string" where
  "nim_str g =
     concat (map (\<lambda>(i, pile_amount).
         [esc] @ ''[1m['' @ str_nat i @ '']'' @ [esc] @ ''[0m '' @ [esc] @ ''[33m'' @
         replicate (nat pile_amount) CHR ''*'' @ [esc] @ ''[0m\<newline>'')
       (enumerate 0 (piles g)))"

section \<open>The built-in \<open>int\<close> on a line of bytes\<close>

text \<open>
  \<open>int(line)\<close> with \<open>line\<close> a \<open>bytes\<close> object, base 10, as CPython parses it: ASCII
  white space is skipped, then one optional sign, then a run of decimal digits and
  underscores that is not empty, neither starts nor ends with an underscore and has no
  two underscores in a row, then white space up to the end. Every other content, a NUL
  byte included, is a \<open>ValueError\<close>. From Python 3.11 on a run of more than
  \<open>sys.get_int_max_str_digits()\<close> digits is a \<open>ValueError\<close> as well; the setting is
  the argument \<open>m\<close> (4300 unless configured, 0 for no limit, which is also the
  behaviour of older interpreters), and it is looked at only above 640 digits.
  \<open>None\<close> stands for the \<open>ValueError\<close>.
\<close>

definition is_space :: "char \<Rightarrow> bool" where
  "is_space c = (c \<in> set [CHR 0x20, CHR 0x09, CHR 0x0A, CHR 0x0B, CHR 0x0C, CHR 0x0D])"

definition is_digit :: "char \<Rightarrow> bool" where
  "is_digit c = (48 \<le> (of_char c :: nat) \<and> (of_char c :: nat) \<le> 57)"

definition digit_or_underscore :: "char \<Rightarrow> bool" where
  "digit_or_underscore c = (is_digit c \<or> c = CHR ''_'')"

fun double_underscore :: "string \<Rightarrow> bool" where
  "double_underscore (x # y # r) = ((x = CHR ''_'' \<and> y = CHR ''_'') \<or> double_underscore (y # r))"
| "double_underscore r = False"

definition decimal :: "string \<Rightarrow> nat" where
  "decimal ds = foldl (\<lambda>acc c. 10 * acc + (of_char c - 48)) 0 ds"

definition over_limit :: "nat \<Rightarrow> nat \<Rightarrow> bool" where
  "over_limit m digits = (640 < digits \<and> 0 < m \<and> m < digits)"

definition py_int :: "nat \<Rightarrow> string \<Rightarrow> int option" where
  "py_int m line =
     (let s1 = dropWhile is_space line;
          negative = (s1 \<noteq> [] \<and> hd s1 = CHR ''-'');
          s2 = (if s1 \<noteq> [] \<and> (hd s1 = CHR ''+'' \<or> hd s1 = CHR ''-'') then tl s1 else s1);
          body = takeWhile digit_or_underscore s2;
          rest = dropWhile digit_or_underscore s2;
          digits = filter is_digit body
      in if body = [] \<or> hd body = CHR ''_'' \<or> last body = CHR ''_'' \<or> double_underscore body
            \<or> dropWhile is_space rest \<noteq> [] \<or> over_limit m (length digits)
         then None
         else Some (if negative then - int (decimal digits) else int (decimal digits)))"

section \<open>The session driver: class NimDriver\<close>

text \<open>
  The stream reader is the list of what the coming calls of \<open>readline\<close> will do: return
  a line (the bytes up to and including the newline, or what was left before the end of
  the file) or raise. When the list is used up the peer has closed the stream, and
  \<open>readline\<close> returns the empty bytes object, every time it is called.

  The session leaves a trace of what it did on the stream, in order: the chunks it
  wrote, the lines it read and the read that failed, and the close. \<open>writer.write\<close>
  only buffers and \<open>drain\<close>, \<open>wait_closed\<close> and \<open>asyncio.sleep\<close> are suspension
  points without an effect on the state: writes do not fail here.
\<close>

datatype read_event = Line string | Broken

datatype io_event = Wrote string | ReadOk string | ReadFailed | Closed

record driver =
  game :: nim
  reader :: "read_event list"
  trace :: "io_event list"
  rng :: "nat \<Rightarrow> nat"
  rng_pos :: nat
  int_max_str_digits :: nat

text \<open>
  A call either returns a value, raises, or is still running when the fuel of its loops
  is used up. The driver comes back with the outcome in all three cases.
\<close>

datatype 'a outcome = Returned 'a | Raised error | Running

type_synonym 'a io = "driver \<Rightarrow> 'a outcome \<times> driver"

definition io_return :: "'a \<Rightarrow> 'a io" where
  "io_return v d = (Returned v, d)"

definition io_bind :: "'a io \<Rightarrow> ('a \<Rightarrow> 'b io) \<Rightarrow> 'b io" where
  "io_bind m f d =
     (case m d of
        (Returned v, d') \<Rightarrow> f v d'
      | (Raised e, d') \<Rightarrow> (Raised e, d')
      | (Running, d') \<Rightarrow> (Running, d'))"

definition writer_write :: "string \<Rightarrow> unit io" where
  "writer_write s d = (Returned (), d\<lparr>trace := trace d @ [Wrote s]\<rparr>)"

definition drain :: "unit io" where
  "drain d = (Returned (), d)"

definition sleep :: "unit io" where
  "sleep d = (Returned (), d)"

definition readline :: "string io" where
  "readline d =
     (case reader d of
        [] \<Rightarrow> (Returned [], d\<lparr>trace := trace d @ [ReadOk []]\<rparr>)
      | Line s # r \<Rightarrow> (Returned s, d\<lparr>reader := r, trace := trace d @ [ReadOk s]\<rparr>)
      | Broken # r \<Rightarrow> (Raised TransportError, d\<lparr>reader := r, trace := trace d @ [ReadFailed]\<rparr>))"

definition close :: "unit io" where
  "close d = (Returned (), d\<lparr>trace := trace d @ [Closed]\<rparr>)"

definition wait_closed :: "unit io" where
  "wait_closed d = (Returned (), d)"

text \<open>The engine's methods on \<open>self._nim\<close>.\<close>

definition nim_play :: "int \<Rightarrow> int \<Rightarrow> unit io" where
  "nim_play pile amount d =
     (case play (game d) pile amount of
        (Inl e, g) \<Rightarrow> (Raised e, d\<lparr>game := g\<rparr>)
      | (Inr u, g) \<Rightarrow> (Returned u, d\<lparr>game := g\<rparr>))"

definition nim_move_is_valid :: "int \<Rightarrow> int \<Rightarrow> bool io" where
  "nim_move_is_valid pile amount d =
     (case move_is_valid (game d) pile amount of
        Inl e \<Rightarrow> (Raised e, d)
      | Inr b \<Rightarrow> (Returned b, d))"

definition nim_can_continue :: "bool io" where
  "nim_can_continue d = (Returned (can_continue (game d)), d)"

definition nim_render :: "string io" where
  "nim_render d = (Returned (nim_str (game d)), d)"

definition nim_random_move :: "(int \<times> int) io" where
  "nim_random_move d =
     (case random_move (rng d (rng_pos d)) (rng d (rng_pos d + 1)) (game d) of
        Inl e \<Rightarrow> (Raised e, d\<lparr>rng_pos := rng_pos d + 2\<rparr>)
      | Inr pa \<Rightarrow> (Returned pa, d\<lparr>rng_pos := rng_pos d + 2\<rparr>))"

text \<open>
  \<open>int(line)\<close> in the running interpreter, and \<open>try: ... except ValueError: ...\<close>: the
  handler runs on the state the body left when the body raised \<open>ValueError\<close>; every
  other outcome of the body is the outcome of the statement.
\<close>

definition builtin_int :: "string \<Rightarrow> int io" where
  "builtin_int line d =
     (case py_int (int_max_str_digits d) line of
        Some v \<Rightarrow> (Returned v, d)
      | None \<Rightarrow> (Raised ValueError, d))"

definition try_except_ValueError :: "'a io \<Rightarrow> 'a io \<Rightarrow> 'a io" where
  "try_except_ValueError body handler d =
     (case body d of
        (Raised e, d') \<Rightarrow> if e = ValueError then handler d' else (Raised e, d')
      | (r, d') \<Rightarrow> (r, d'))"

text \<open>
  \<open>NimDriver._read_int\<close>. The \<open>try\<close> covers \<open>int(line)\<close> and the \<open>return\<close> only,
  so what \<open>readline\<close> raises leaves the loop; \<open>line.strip()\<close> builds a value that is
  dropped. One unit of fuel is one pass of the \<open>while True\<close>.
\<close>

definition invalid_integer :: string where
  "invalid_integer = ''Input wasn't a valid integer.\<newline>''"

primrec read_int :: "nat \<Rightarrow> string \<Rightarrow> int io" where
  "read_int 0 prompt = (\<lambda>d. (Running, d))"
| "read_int (Suc n) prompt =
     io_bind (writer_write (prompt @ ''\<newline>> '')) (\<lambda>_.
     io_bind drain (\<lambda>_.
     io_bind readline (\<lambda>line.
     try_except_ValueError
       (io_bind (builtin_int line) (\<lambda>v.
        io_return v))
       (io_bind (writer_write invalid_integer) (\<lambda>_.
        io_bind drain (\<lambda>_.
        read_int n prompt))))))"

text \<open>\<open>NimDriver._ask_move\<close>.\<close>

definition pile_prompt :: string where
  "pile_prompt = ''Which pile would you like to take from?''"

definition amount_prompt :: string where
  "amount_prompt = ''How many would you like to take?''"

definition ask_move :: "nat \<Rightarrow> (int \<times> int) io" where
  "ask_move n =
     io_bind (read_int n pile_prompt) (\<lambda>pile.
     io_bind (read_int n amount_prompt) (\<lambda>amount.
     io_return (pile, amount)))"

text \<open>\<open>NimDriver._fake_progress_bar\<close>: fifteen frames, then a newline.\<close>

definition rjust :: "nat \<Rightarrow> string \<Rightarrow> string" where
  "rjust w s = replicate (w - length s) CHR '' '' @ s"

primrec for_loop :: "'a list \<Rightarrow> ('a \<Rightarrow> unit io) \<Rightarrow> unit io" where
  "for_loop [] body = io_return ()"
| "for_loop (x # xs) body = io_bind (body x) (\<lambda>_. for_loop xs body)"

definition fake_progress_bar :: "string \<Rightarrow> unit io" where
  "fake_progress_bar prompt =
     io_bind (for_loop [0..<15] (\<lambda>i.
       io_bind (writer_write ([CHR 0x0D] @ prompt @ '': '' @ rjust 3 (replicate (i mod 3 + 1) CHR ''*''))) (\<lambda>_.
       io_bind drain (\<lambda>_.
       sleep)))) (\<lambda>_.
     writer_write ''\<newline>'')"

text \<open>
  \<open>NimDriver._round\<close>. \<open>validate\<close> is the \<open>while not self._nim.move_is_valid(pile,
  amount)\<close> loop of lines 75 to 78, entered with the move just asked for; it returns the
  move the loop ends with.
\<close>

definition not_valid :: string where
  "not_valid = ''Not a valid move.\<newline>''"

definition you_won :: string where
  "you_won = ''You won. Congrats.\<newline>''"

definition computer_won :: string where
  "computer_won = ''\<newline>The computer beat you. That's honestly kinda sad.\<newline>''"

primrec validate :: "nat \<Rightarrow> int \<times> int \<Rightarrow> (int \<times> int) io" where
  "validate 0 move = (\<lambda>d. (Running, d))"
| "validate (Suc n) move =
     io_bind (nim_move_is_valid (fst move) (snd move)) (\<lambda>ok.
     if ok then io_return move
     else
       io_bind (writer_write not_valid) (\<lambda>_.
       io_bind (ask_move n) (\<lambda>move'.
       io_bind drain (\<lambda>_.
       validate n move'))))"

definition driver_round :: "nat \<Rightarrow> bool io" where
  "driver_round n =
     io_bind nim_render (\<lambda>s.
     io_bind (writer_write s) (\<lambda>_.
     io_bind drain (\<lambda>_.
     io_bind (ask_move n) (\<lambda>move.
     io_bind drain (\<lambda>_.
     io_bind (validate n move) (\<lambda>(pile, amount).
     io_bind (nim_play pile amount) (\<lambda>_.
     io_bind nim_render (\<lambda>s.
     io_bind (writer_write s) (\<lambda>_.
     io_bind drain (\<lambda>_.
     io_bind (fake_progress_bar ''Determining response'') (\<lambda>_.
     io_bind nim_can_continue (\<lambda>continue.
     if \<not> continue then
       io_bind (writer_write you_won) (\<lambda>_.
       io_bind drain (\<lambda>_.
       io_return False))
     else
       io_bind nim_random_move (\<lambda>(pile, amount).
       io_bind (nim_play pile amount) (\<lambda>_.
       io_bind nim_can_continue (\<lambda>continue.
       if \<not> continue then
         io_bind nim_render (\<lambda>s.
         io_bind (writer_write s) (\<lambda>_.
         io_bind (writer_write computer_won) (\<lambda>_.
         io_bind drain (\<lambda>_.
         io_return False))))
       else io_return True)))))))))))))))"

text \<open>\<open>NimDriver.play\<close>: rounds until one returns false.\<close>

primrec driver_play :: "nat \<Rightarrow> unit io" where
  "driver_play 0 = (\<lambda>d. (Running, d))"
| "driver_play (Suc n) =
     io_bind (driver_round n) (\<lambda>again.
     if again then driver_play n else io_return ())"

text \<open>
  The connection callback \<open>cb\<close> of \<open>main\<close>: a new driver (and with it a new engine) on
  the stream, the game, then the close. \<open>new_driver\<close> is \<open>NimDriver.__init__\<close>; the
  draws of the random module and the interpreter's digit limit come with the
  environment.
\<close>

definition new_driver :: "read_event list \<Rightarrow> (nat \<Rightarrow> nat) \<Rightarrow> nat \<Rightarrow> driver" where
  "new_driver r draws m =
     \<lparr>game = nim_init, reader = r, trace = [], rng = draws, rng_pos = 0,
      int_max_str_digits = m\<rparr>"

definition cb :: "nat \<Rightarrow> read_event list \<Rightarrow> (nat \<Rightarrow> nat) \<Rightarrow> nat \<Rightarrow> unit outcome \<times> driver" where
  "cb n r draws m =
     io_bind (driver_play n) (\<lambda>_.
     io_bind close (\<lambda>_.
     wait_closed)) (new_driver r draws m)"

section \<open>Predicates of the statements\<close>

text \<open>
  The state invariant of the data model: three piles, none negative.
\<close>

definition nim_inv :: "nim \<Rightarrow> bool" where
  "nim_inv g = (length (piles g) = 3 \<and> (\<forall>x \<in> set (piles g). 0 \<le> x))"

text \<open>
  The engine states a session can be in: the initial one, and every state a call of
  \<open>play\<close> that returns leaves behind. Both the player's moves and the computer's go
  through \<open>play\<close>.
\<close>

inductive reachable :: "nim \<Rightarrow> bool" where
  start: "reachable nim_init"
| move: "reachable g \<Longrightarrow> play g pile amount = (Inr (), g') \<Longrightarrow> reachable g'"

text \<open>
  The spec's words for the accepted lines, "the conventional textual representation of
  a signed integer (leading/trailing whitespace tolerated)": white space, an optional
  sign, one or more decimal digits, white space.
\<close>

definition conventional_integer :: "string \<Rightarrow> bool" where
  "conventional_integer line =
     (let s1 = dropWhile is_space line;
          s2 = (if s1 \<noteq> [] \<and> (hd s1 = CHR ''+'' \<or> hd s1 = CHR ''-'') then tl s1 else s1)
      in takeWhile is_digit s2 \<noteq> [] \<and> list_all is_space (dropWhile is_digit s2))"

text \<open>
  The lines \<open>int\<close> is documented to accept, piece by piece: white space, a sign that is
  empty, \<open>+\<close> or \<open>-\<close>, a body of decimal digits in which single underscores may stand
  between two digits, white space. \<open>digits_grouped\<close> reads the body from the left: a
  digit, and after it either the end, another digit, or one underscore followed by a
  body again. \<open>signed_value\<close> is the number the line stands for: the digits of the
  body in base ten, negated under the sign \<open>-\<close>.
\<close>

fun digits_grouped :: "string \<Rightarrow> bool" where
  "digits_grouped [] = False"
| "digits_grouped [c] = is_digit c"
| "digits_grouped (c # d # s) =
     (is_digit c \<and> (if d = CHR ''_'' then digits_grouped s else digits_grouped (d # s)))"

definition sign_text :: "string \<Rightarrow> bool" where
  "sign_text sg = (sg = [] \<or> sg = ''+'' \<or> sg = ''-'')"

definition signed_value :: "string \<Rightarrow> string \<Rightarrow> int" where
  "signed_value sg body =
     (if sg = ''-'' then - int (decimal (filter is_digit body))
      else int (decimal (filter is_digit body)))"

text \<open>
  A triple for a call of the driver: from a state with \<open>P\<close>, the call leaves a state
  with \<open>Q v\<close> when it returns \<open>v\<close>, with \<open>X e\<close> when it raises \<open>e\<close>, and with \<open>U\<close>
  when its loops are still running at the end of the fuel.
\<close>

definition io_triple ::
  "(driver \<Rightarrow> bool) \<Rightarrow> 'a io \<Rightarrow> ('a \<Rightarrow> driver \<Rightarrow> bool) \<Rightarrow> (error \<Rightarrow> driver \<Rightarrow> bool) \<Rightarrow>
   (driver \<Rightarrow> bool) \<Rightarrow> bool" where
  "io_triple P m Q X U =
     (\<forall>d. P d \<longrightarrow>
        (case m d of
           (Returned v, d') \<Rightarrow> Q v d'
         | (Raised e, d') \<Rightarrow> X e d'
         | (Running, d') \<Rightarrow> U d'))"

text \<open>
  \<open>same_game g\<close>: a call that starts with the engine \<open>g\<close> leaves the engine \<open>g\<close>, and
  does not raise \<open>AssertionError\<close>. \<open>engine_safe\<close>: a call that starts in a reachable
  engine state leaves a reachable engine state, and does not raise \<open>AssertionError\<close>.
\<close>

definition same_game :: "nim \<Rightarrow> 'a io \<Rightarrow> bool" where
  "same_game g m =
     io_triple (\<lambda>d. game d = g) m (\<lambda>_ d. game d = g)
       (\<lambda>e d. game d = g \<and> e \<noteq> AssertionError) (\<lambda>d. game d = g)"

definition game_ok :: "driver \<Rightarrow> bool" where
  "game_ok d = reachable (game d)"

definition engine_safe :: "'a io \<Rightarrow> bool" where
  "engine_safe m =
     io_triple game_ok m (\<lambda>_. game_ok) (\<lambda>e d. game_ok d \<and> e \<noteq> AssertionError) game_ok"

text \<open>
  \<open>read_abort\<close>: while no read has failed, a call either goes on without a failed read
  in the trace, or raises \<open>TransportError\<close> with the failed read as the last event of
  the trace and the only one of its kind.
\<close>

definition no_failed_read :: "driver \<Rightarrow> bool" where
  "no_failed_read d = (ReadFailed \<notin> set (trace d))"

definition stopped_at_failed_read :: "driver \<Rightarrow> bool" where
  "stopped_at_failed_read d =
     (trace d \<noteq> [] \<and> last (trace d) = ReadFailed \<and> ReadFailed \<notin> set (butlast (trace d)))"

definition read_abort :: "'a io \<Rightarrow> bool" where
  "read_abort m =
     io_triple no_failed_read m (\<lambda>_. no_failed_read)
       (\<lambda>e d. no_failed_read d \<or> (e = TransportError \<and> stopped_at_failed_read d))
       no_failed_read"

section \<open>Properties of the engine\<close>

subsection \<open>List indexing and the effect of a move\<close>

lemma py_index_nonneg:
  "0 \<le> i \<Longrightarrow> i < int (length xs) \<Longrightarrow> py_index xs i = Inr (nat i)"
  by (simp add: py_index_def)

lemma py_index_Inr:
  "py_index xs i = Inr k \<Longrightarrow> k < length xs"
  by (auto simp: py_index_def Let_def split: if_splits)

lemma play_Inr:
  assumes "play g pile amount = (Inr (), g')"
  shows "\<exists>k < length (piles g). py_index (piles g) pile = Inr k \<and> 0 < amount \<and> amount \<le> piles g ! k
           \<and> g' = g\<lparr>piles := (piles g)[k := piles g ! k - amount]\<rparr>"
  using assms
  by (auto simp: play_def move_is_valid_def py_getitem_def py_setitem_def
      split: sum.splits if_splits dest: py_index_Inr)

lemma play_valid:
  assumes "move_is_valid g pile amount = Inr True"
  shows "\<exists>k < length (piles g). py_index (piles g) pile = Inr k \<and> 0 < amount \<and> amount \<le> piles g ! k
           \<and> play g pile amount = (Inr (), g\<lparr>piles := (piles g)[k := piles g ! k - amount]\<rparr>)"
  using assms
  by (auto simp: play_def move_is_valid_def py_getitem_def py_setitem_def
      split: sum.splits if_splits dest: py_index_Inr)

lemma nonneg_update:
  assumes "\<forall>x \<in> set xs. (0::int) \<le> x" and "0 \<le> v"
  shows "\<forall>x \<in> set (xs[k := v]). 0 \<le> x"
  using assms set_update_subset_insert [of xs k v] by auto

lemma play_inv:
  assumes "play g pile amount = (Inr (), g')" and "nim_inv g"
  shows "nim_inv g'"
proof -
  from play_Inr [OF assms(1)] obtain k where k: "k < length (piles g)"
    "amount \<le> piles g ! k" "g' = g\<lparr>piles := (piles g)[k := piles g ! k - amount]\<rparr>"
    by blast
  from assms(2) have "\<forall>x \<in> set (piles g). 0 \<le> x" by (simp add: nim_inv_def)
  with k(2) have "\<forall>x \<in> set ((piles g)[k := piles g ! k - amount]). 0 \<le> x"
    by (intro nonneg_update) simp_all
  with assms(2) k(3) show ?thesis by (simp add: nim_inv_def)
qed

lemma nim_inv_init: "nim_inv nim_init"
  by (simp add: nim_inv_def nim_init_def)

lemma reachable_inv: "reachable g \<Longrightarrow> nim_inv g"
  by (induction rule: reachable.induct) (auto intro: nim_inv_init play_inv)

lemma sum_list_nonneg_zero:
  "\<forall>x \<in> set xs. (0::int) \<le> x \<Longrightarrow> (sum_list xs = 0) = (\<forall>x \<in> set xs. x = 0)"
  by (induction xs) (auto simp: add_nonneg_eq_0_iff sum_list_nonneg)

subsection \<open>The validity predicate\<close>

text \<open>
  Claim C1 says that \<open>move_is_valid\<close> never raises and returns false for every pile index
  outside \<open>[0, pile_count)\<close>. The predicate checks \<open>pile < len(self._piles)\<close> and has no
  lower bound: on the initial piles the move \<open>(-4, 1)\<close> raises \<open>IndexError\<close> and the
  move \<open>(-1, 1)\<close> is accepted. The theorem evaluates the predicate at both inputs, and
  the session of a player who answers \<open>-4\<close> and \<open>1\<close>: it ends with the \<open>IndexError\<close>.
\<close>

theorem move_is_valid_negative_pile:
  "move_is_valid nim_init (- 4) 1 = Inl IndexError \<and>
   move_is_valid nim_init (- 1) 1 = Inr True \<and>
   fst (cb 3 [Line ''-4\<newline>'', Line ''1\<newline>''] (\<lambda>_. 0) 4300) = Raised IndexError"
  by code_simp

subsection \<open>Applying a move\<close>

text \<open>
  Claim C3: for every valid move \<open>(p, a)\<close> with \<open>0 \<le> p < 3\<close> and
  \<open>1 \<le> a \<le> piles[p]\<close>, \<open>play\<close> returns, the pile \<open>p\<close> is smaller by exactly \<open>a\<close>,
  every other pile keeps its value and there are still three piles.
\<close>

theorem play_valid_move:
  assumes "length (piles g) = 3" and "0 \<le> p" and "p < 3"
    and "1 \<le> a" and "a \<le> piles g ! nat p"
  shows "\<exists>g'. play g p a = (Inr (), g') \<and>
           piles g' ! nat p = piles g ! nat p - a \<and>
           (\<forall>i < 3. i \<noteq> nat p \<longrightarrow> piles g' ! i = piles g ! i) \<and>
           length (piles g') = 3"
proof -
  from assms have ix: "py_index (piles g) p = Inr (nat p)"
    by (simp add: py_index_nonneg)
  with assms have "move_is_valid g p a = Inr True"
    by (simp add: move_is_valid_def py_getitem_def)
  with ix have "play g p a = (Inr (), g\<lparr>piles := (piles g)[nat p := piles g ! nat p - a]\<rparr>)"
    by (simp add: play_def py_getitem_def py_setitem_def)
  with assms show ?thesis by simp
qed

text \<open>The move \<open>(1, 2)\<close> on the initial piles leaves 3, 2 and 5.\<close>

theorem play_valid_move_witness:
  "length (piles nim_init) = 3 \<and> (1::int) \<le> 2 \<and> 2 \<le> piles nim_init ! nat 1 \<and>
   (\<exists>g'. play nim_init 1 2 = (Inr (), g') \<and> piles g' ! 1 = 2 \<and>
      piles g' ! 0 = 3 \<and> piles g' ! 2 = 5 \<and> length (piles g') = 3)"
proof -
  have h: "length (piles nim_init) = 3" "(0::int) \<le> 1" "(1::int) < 3" "(1::int) \<le> 2"
    "2 \<le> piles nim_init ! nat 1"
    by (simp_all add: nim_init_def)
  from play_valid_move [OF h] obtain g' where
    g': "play nim_init 1 2 = (Inr (), g')" "piles g' ! nat 1 = piles nim_init ! nat 1 - 2"
      "\<forall>i < 3. i \<noteq> nat 1 \<longrightarrow> piles g' ! i = piles nim_init ! i" "length (piles g') = 3"
    by blast
  from g'(3) have "piles g' ! 0 = 3" "piles g' ! 2 = 5"
    by (simp_all add: nim_init_def)
  with g'(1,2,4) h show ?thesis by (auto simp: nim_init_def)
qed

subsection \<open>The end of the game\<close>

text \<open>
  Claim C4: in every reachable state \<open>can_continue\<close> is true iff the sum of the piles is
  not zero, and false iff every pile is zero. The second half needs the piles to be
  non-negative, which holds in every reachable state.
\<close>

theorem can_continue_iff:
  assumes "reachable g"
  shows "can_continue g = (sum_list (piles g) \<noteq> 0) \<and>
         (\<not> can_continue g) = (\<forall>x \<in> set (piles g). x = 0)"
proof -
  from assms have "\<forall>x \<in> set (piles g). 0 \<le> x"
    by (auto dest: reachable_inv simp: nim_inv_def)
  then show ?thesis
    by (simp add: can_continue_def sum_list_nonneg_zero)
qed

text \<open>The initial state is reachable, its piles sum to 12 and the game continues.\<close>

theorem can_continue_iff_witness:
  "can_continue nim_init \<and> sum_list (piles nim_init) = 12"
  using can_continue_iff [OF reachable.start]
  by (simp add: nim_init_def)

subsection \<open>The computer's move\<close>

lemma candidates_set:
  "set (candidates g) = {int i | i. i < length (piles g) \<and> piles g ! i > 0}"
  by (auto simp: candidates_def in_set_enumerate_eq image_iff) 

lemma random_move_legal_aux:
  assumes nonneg: "\<forall>x \<in> set (piles g). 0 \<le> x" and cont: "can_continue g"
  shows "\<exists>p a. random_move r1 r2 g = Inr (p, a) \<and> 0 \<le> p \<and> p < int (length (piles g)) \<and>
           0 < piles g ! nat p \<and> 1 \<le> a \<and> a \<le> piles g ! nat p"
proof -
  from cont nonneg have "\<not> (\<forall>x \<in> set (piles g). x = 0)"
    by (simp add: can_continue_def sum_list_nonneg_zero)
  then obtain x where "x \<in> set (piles g)" "x \<noteq> 0" by blast
  with nonneg have "x \<in> set (piles g)" "0 < x" by force+
  then obtain i where "i < length (piles g)" "0 < piles g ! i"
    by (auto simp: in_set_conv_nth)
  then have "int i \<in> set (candidates g)" by (auto simp: candidates_set)
  then have ne: "candidates g \<noteq> []" by auto
  define p where "p = candidates g ! randbelow (length (candidates g)) r1"
  from ne have "randbelow (length (candidates g)) r1 < length (candidates g)"
    by (simp add: randbelow_def)
  then have "p \<in> set (candidates g)" unfolding p_def by simp
  then obtain k where k: "p = int k" "k < length (piles g)" "0 < piles g ! k"
    by (auto simp: candidates_set)
  define v where "v = piles g ! k"
  define a where "a = 1 + int (randbelow (nat v) r2)"
  from k v_def have vpos: "0 < v" by simp
  then have "randbelow (nat v) r2 < nat v" by (simp add: randbelow_def)
  with vpos have a: "1 \<le> a" "a \<le> v" unfolding a_def by linarith+
  from ne p_def have c: "choice r1 (candidates g) = Inr p" by (simp add: choice_def)
  from k v_def have gi: "py_getitem (piles g) p = Inr v"
    by (simp add: py_getitem_def py_index_nonneg)
  from vpos a_def have ri: "randint r2 1 v = Inr a" by (simp add: randint_def)
  from c gi ri have "random_move r1 r2 g = Inr (p, a)" by (simp add: random_move_def)
  with k a vpos v_def show ?thesis by auto
qed

text \<open>
  Claim C5: in a reachable state where \<open>can_continue\<close> holds, \<open>random_move\<close> returns
  for every pair of draws, and what it returns is the index of a non-empty pile and an
  amount between 1 and the size of that pile. On the piles 0, 2, 0 it returns pile 1
  with amount 1 or 2 for every pair of draws.
\<close>

theorem random_move_legal:
  "(reachable g \<and> can_continue g \<longrightarrow>
      (\<exists>p a. random_move r1 r2 g = Inr (p, a) \<and> 0 \<le> p \<and> p < int (length (piles g)) \<and>
         0 < piles g ! nat p \<and> 1 \<le> a \<and> a \<le> piles g ! nat p)) \<and>
   (\<exists>a. random_move r1 r2 \<lparr>piles = [0, 2, 0]\<rparr> = Inr (1, a) \<and> 1 \<le> a \<and> a \<le> 2)"
proof (intro conjI impI)
  assume h: "reachable g \<and> can_continue g"
  then have "\<forall>x \<in> set (piles g). 0 \<le> x"
    by (auto dest: reachable_inv simp: nim_inv_def)
  with h show "\<exists>p a. random_move r1 r2 g = Inr (p, a) \<and> 0 \<le> p \<and> p < int (length (piles g)) \<and>
         0 < piles g ! nat p \<and> 1 \<le> a \<and> a \<le> piles g ! nat p"
    by (intro random_move_legal_aux) simp_all
next
  let ?g = "\<lparr>piles = [0, 2, 0]\<rparr>"
  have "\<forall>x \<in> set (piles ?g). 0 \<le> x" and "can_continue ?g"
    by (simp_all add: can_continue_def)
  from random_move_legal_aux [OF this, of r1 r2]
  obtain p a where pa: "random_move r1 r2 ?g = Inr (p, a)" "0 \<le> p" "p < 3"
    "0 < piles ?g ! nat p" "1 \<le> a" "a \<le> piles ?g ! nat p" by auto
  from pa(2,3) have "p = 0 \<or> p = 1 \<or> p = 2" by auto
  with pa(4) have p1: "p = 1" by auto
  with pa show "\<exists>a. random_move r1 r2 ?g = Inr (1, a) \<and> 1 \<le> a \<and> a \<le> 2" by auto
qed

text \<open>The initial state with the draws 7 and 9.\<close>

theorem random_move_legal_witness:
  "reachable nim_init \<and> can_continue nim_init \<and>
   (\<exists>p a. random_move 7 9 nim_init = Inr (p, a) \<and> 0 \<le> p \<and> p < 3 \<and>
      0 < piles nim_init ! nat p \<and> 1 \<le> a \<and> a \<le> piles nim_init ! nat p)"
proof -
  have h: "reachable nim_init \<and> can_continue nim_init"
    by (simp add: reachable.start can_continue_def) (simp add: nim_init_def)
  have l: "int (length (piles nim_init)) = 3" by (simp add: nim_init_def)
  from h random_move_legal [of nim_init 7 9] show ?thesis
    unfolding l by blast
qed

subsection \<open>The contract of \<open>play\<close>\<close>

text \<open>
  Claim C6: when \<open>move_is_valid\<close> rejects the move, \<open>play\<close> raises
  \<open>AssertionError\<close> and the engine is as it was; when \<open>move_is_valid\<close> itself raises,
  \<open>play\<close> raises the same error and the engine is as it was; when \<open>move_is_valid\<close>
  accepts the move, \<open>play\<close> returns.
\<close>

theorem play_contract:
  "(move_is_valid g p a = Inr False \<longrightarrow> play g p a = (Inl AssertionError, g)) \<and>
   (move_is_valid g p a = Inl e \<longrightarrow> play g p a = (Inl e, g)) \<and>
   (move_is_valid g p a = Inr True \<longrightarrow> (\<exists>g'. play g p a = (Inr (), g')))"
  using play_valid [of g p a] by (auto simp: play_def)

text \<open>
  On the initial piles: \<open>(5, 1)\<close> is rejected, \<open>(-4, 1)\<close> makes the predicate raise,
  \<open>(0, 3)\<close> is accepted.
\<close>

theorem play_contract_witness:
  "move_is_valid nim_init 5 1 = Inr False \<and> play nim_init 5 1 = (Inl AssertionError, nim_init) \<and>
   move_is_valid nim_init (- 4) 1 = Inl IndexError \<and> play nim_init (- 4) 1 = (Inl IndexError, nim_init) \<and>
   move_is_valid nim_init 0 3 = Inr True \<and> (\<exists>g'. play nim_init 0 3 = (Inr (), g'))"
proof -
  have a: "move_is_valid nim_init 5 1 = Inr False"
    and b: "move_is_valid nim_init (- 4) 1 = Inl IndexError"
    and c: "move_is_valid nim_init 0 3 = Inr True"
    by (simp_all add: move_is_valid_def nim_init_def py_getitem_def py_index_def)
  from a b c play_contract [of nim_init 5 1] play_contract [of nim_init "- 4" 1 IndexError]
    play_contract [of nim_init 0 3]
  show ?thesis by simp
qed

subsection \<open>Negative pile indices\<close>

text \<open>
  Claim C10 says that \<open>move_is_valid\<close> raises for every pile index \<open>p \<le> -4\<close>. With
  an amount that is not positive the conjunction stops before the list is indexed: the
  move \<open>(-4, 0)\<close> on the initial piles returns false.
\<close>

theorem negative_index_counterexample:
  "move_is_valid nim_init (- 4) 0 = Inr False"
  by (simp add: move_is_valid_def nim_init_def)

text \<open>
  Claim C10, amended: with three piles, for \<open>-3 \<le> p \<le> -1\<close> and
  \<open>1 \<le> a \<le> piles[p + 3]\<close> the predicate returns true and \<open>play\<close> takes \<open>a\<close> from
  pile \<open>p + 3\<close>; for \<open>p \<le> -4\<close> the predicate raises \<open>IndexError\<close> when \<open>a \<ge> 1\<close>
  and returns false when \<open>a \<le> 0\<close>.
\<close>

theorem negative_index:
  assumes "length (piles g) = 3"
  shows "(- 3 \<le> p \<and> p \<le> - 1 \<and> 1 \<le> a \<and> a \<le> piles g ! nat (p + 3) \<longrightarrow>
            move_is_valid g p a = Inr True \<and>
            play g p a = (Inr (), g\<lparr>piles := (piles g)[nat (p + 3) := piles g ! nat (p + 3) - a]\<rparr>)) \<and>
         (p \<le> - 4 \<and> 1 \<le> a \<longrightarrow> move_is_valid g p a = Inl IndexError) \<and>
         (p \<le> - 4 \<and> a \<le> 0 \<longrightarrow> move_is_valid g p a = Inr False)"
  using assms
  by (auto simp: move_is_valid_def play_def py_getitem_def py_setitem_def py_index_def)

text \<open>On the initial piles: the moves \<open>(-1, 5)\<close>, \<open>(-4, 1)\<close> and \<open>(-5, 0)\<close>.\<close>

theorem negative_index_witness:
  "length (piles nim_init) = 3 \<and>
   move_is_valid nim_init (- 1) 5 = Inr True \<and>
   play nim_init (- 1) 5 = (Inr (), \<lparr>piles = [3, 4, 0]\<rparr>) \<and>
   move_is_valid nim_init (- 4) 1 = Inl IndexError \<and>
   move_is_valid nim_init (- 5) 0 = Inr False"
  using negative_index [of nim_init "- 1" 5] negative_index [of nim_init "- 4" 1]
    negative_index [of nim_init "- 5" 0]
  by (simp add: nim_init_def)

section \<open>Properties of the driver\<close>

subsection \<open>Running the input step\<close>

lemma io_bind_write [simp]:
  "io_bind (writer_write s) f d = f () (d\<lparr>trace := trace d @ [Wrote s]\<rparr>)"
  by (simp add: io_bind_def writer_write_def)

lemma io_bind_drain [simp]: "io_bind drain f d = f () d"
  by (simp add: io_bind_def drain_def)

lemma io_bind_sleep [simp]: "io_bind sleep f d = f () d"
  by (simp add: io_bind_def sleep_def)

lemma io_bind_return [simp]: "io_bind (io_return v) f d = f v d"
  by (simp add: io_bind_def io_return_def)

lemma io_bind_readline_Line:
  "reader d = Line l # r \<Longrightarrow>
   io_bind readline f d = f l (d\<lparr>reader := r, trace := trace d @ [ReadOk l]\<rparr>)"
  by (simp add: io_bind_def readline_def)

lemma io_bind_readline_eof:
  "reader d = [] \<Longrightarrow>
   io_bind readline f d = f [] (d\<lparr>trace := trace d @ [ReadOk []]\<rparr>)"
  by (simp add: io_bind_def readline_def)

lemma io_bind_readline_Broken:
  "reader d = Broken # r \<Longrightarrow>
   io_bind readline f d = (Raised TransportError, d\<lparr>reader := r, trace := trace d @ [ReadFailed]\<rparr>)"
  by (simp add: io_bind_def readline_def)

lemma try_int_Some:
  "py_int (int_max_str_digits d) l = Some v \<Longrightarrow>
   try_except_ValueError (io_bind (builtin_int l) io_return) h d = (Returned v, d)"
  by (simp add: try_except_ValueError_def io_bind_def builtin_int_def io_return_def)

lemma try_int_None:
  "py_int (int_max_str_digits d) l = None \<Longrightarrow>
   try_except_ValueError (io_bind (builtin_int l) io_return) h d = h d"
  by (simp add: try_except_ValueError_def io_bind_def builtin_int_def)

lemma read_int_accept:
  assumes "reader d = Line l # r" and "py_int (int_max_str_digits d) l = Some v"
  shows "read_int (Suc n) prompt d =
           (Returned v, d\<lparr>reader := r,
              trace := trace d @ [Wrote (prompt @ ''\<newline>> ''), ReadOk l]\<rparr>)"
  using assms by (simp add: io_bind_readline_Line try_int_Some)

lemma read_int_reject:
  assumes "reader d = Line l # r" and "py_int (int_max_str_digits d) l = None"
  shows "read_int (Suc n) prompt d =
           read_int n prompt (d\<lparr>reader := r,
              trace := trace d @ [Wrote (prompt @ ''\<newline>> ''), ReadOk l, Wrote invalid_integer]\<rparr>)"
  using assms by (simp add: io_bind_readline_Line try_int_None)

lemma read_int_attempts:
  assumes "\<forall>l \<in> set bad. py_int (int_max_str_digits d) l = None"
    and "py_int (int_max_str_digits d) good = Some v"
    and "reader d = map Line bad @ Line good # r"
    and "length bad < n"
  shows "read_int n prompt d =
           (Returned v, d\<lparr>reader := r,
              trace := trace d @
                concat (map (\<lambda>l. [Wrote (prompt @ ''\<newline>> ''), ReadOk l, Wrote invalid_integer]) bad) @
                [Wrote (prompt @ ''\<newline>> ''), ReadOk good]\<rparr>)"
  using assms
proof (induction bad arbitrary: d n)
  case Nil
  then obtain k where "n = Suc k" by (cases n) auto
  with Nil read_int_accept [of d good r v k prompt] show ?case by simp
next
  case (Cons l bad)
  then obtain k where k: "n = Suc k" by (cases n) auto
  let ?d = "d\<lparr>reader := map Line bad @ Line good # r,
              trace := trace d @ [Wrote (prompt @ ''\<newline>> ''), ReadOk l, Wrote invalid_integer]\<rparr>"
  from Cons.prems have step: "read_int (Suc k) prompt d = read_int k prompt ?d"
    by (intro read_int_reject) simp_all
  from Cons.prems k have "read_int k prompt ?d =
     (Returned v, ?d\<lparr>reader := r,
        trace := trace ?d @
          concat (map (\<lambda>l. [Wrote (prompt @ ''\<newline>> ''), ReadOk l, Wrote invalid_integer]) bad) @
          [Wrote (prompt @ ''\<newline>> ''), ReadOk good]\<rparr>)"
    by (intro Cons.IH) simp_all
  with step k show ?case by simp
qed

lemma read_int_broken:
  assumes "reader d = Broken # r"
  shows "read_int (Suc n) prompt d =
           (Raised TransportError,
            d\<lparr>reader := r, trace := trace d @ [Wrote (prompt @ ''\<newline>> ''), ReadFailed]\<rparr>)"
  using assms by (simp add: io_bind_readline_Broken)

lemma read_int_eof:
  assumes "reader d = []"
  shows "read_int (Suc n) prompt d =
           read_int n prompt
             (d\<lparr>trace := trace d @ [Wrote (prompt @ ''\<newline>> ''), ReadOk [], Wrote invalid_integer]\<rparr>)"
proof -
  have "py_int m [] = None" for m by (simp add: py_int_def)
  with assms show ?thesis by (simp add: io_bind_readline_eof try_int_None)
qed

lemma read_int_eof_running:
  "reader d = [] \<Longrightarrow> fst (read_int n prompt d) = Running"
proof (induction n arbitrary: d)
  case 0
  show ?case by simp
next
  case (Suc n)
  let ?d = "d\<lparr>trace := trace d @ [Wrote (prompt @ ''\<newline>> ''), ReadOk [], Wrote invalid_integer]\<rparr>"
  from Suc.prems have "read_int (Suc n) prompt d = read_int n prompt ?d"
    by (rule read_int_eof)
  moreover from Suc.prems have "fst (read_int n prompt ?d) = Running"
    by (intro Suc.IH) simp
  ultimately show ?case by simp
qed

subsection \<open>The lines \<open>int\<close> accepts\<close>

lemma is_digit_not_underscore: "is_digit c \<Longrightarrow> c \<noteq> CHR ''_''"
  by (auto simp: is_digit_def)

lemma is_space_not_digit_or_underscore: "is_space c \<Longrightarrow> \<not> digit_or_underscore c"
  by (auto simp: is_space_def digit_or_underscore_def is_digit_def)

lemma double_underscore_has: "double_underscore s \<Longrightarrow> CHR ''_'' \<in> set s"
  by (induction s rule: double_underscore.induct) auto

lemma over_limit_mono: "over_limit m a \<Longrightarrow> a \<le> b \<Longrightarrow> over_limit m b"
  by (auto simp: over_limit_def)

lemma py_int_unfold:
  assumes "s1 = dropWhile is_space line"
    and "s2 = (if s1 \<noteq> [] \<and> (hd s1 = CHR ''+'' \<or> hd s1 = CHR ''-'') then tl s1 else s1)"
    and "body = takeWhile digit_or_underscore s2"
    and "rest = dropWhile digit_or_underscore s2"
    and "digits = filter is_digit body"
  shows "py_int m line =
     (if body = [] \<or> hd body = CHR ''_'' \<or> last body = CHR ''_'' \<or> double_underscore body
            \<or> dropWhile is_space rest \<noteq> [] \<or> over_limit m (length digits)
         then None
         else Some (if s1 \<noteq> [] \<and> hd s1 = CHR ''-'' then - int (decimal digits) else int (decimal digits)))"
  unfolding py_int_def Let_def assms ..

lemma is_digit_not_space: "is_digit c \<Longrightarrow> \<not> is_space c"
  by (auto simp: is_digit_def is_space_def)

lemma is_digit_not_sign: "is_digit c \<Longrightarrow> c \<noteq> CHR ''+'' \<and> c \<noteq> CHR ''-''"
  by (auto simp: is_digit_def)

lemma sign_not_space: "\<not> is_space CHR ''+''" "\<not> is_space CHR ''-''"
  by (simp_all add: is_space_def)

lemma sign_not_digit_or_underscore: "\<not> digit_or_underscore CHR ''+''" "\<not> digit_or_underscore CHR ''-''"
  by (simp_all add: digit_or_underscore_def is_digit_def)

lemma digits_grouped_props:
  "digits_grouped s \<Longrightarrow>
     s \<noteq> [] \<and> is_digit (hd s) \<and> is_digit (last s) \<and> (\<forall>c \<in> set s. digit_or_underscore c) \<and>
     \<not> double_underscore s"
proof (induction s rule: digits_grouped.induct)
  case 1
  then show ?case by simp
next
  case (2 c)
  then show ?case by (simp add: digit_or_underscore_def)
next
  case (3 c d s)
  show ?case
  proof (cases "d = CHR ''_''")
    case True
    with "3.prems" have c: "is_digit c" and s: "digits_grouped s" by simp_all
    from "3.IH"(1) [OF True s] have ih: "s \<noteq> []" "is_digit (hd s)" "is_digit (last s)"
      "\<forall>c \<in> set s. digit_or_underscore c" "\<not> double_underscore s" by simp_all
    from ih(1) obtain x xs where xs: "s = x # xs" by (cases s) auto
    with ih(2) have "x \<noteq> CHR ''_''" by (auto dest: is_digit_not_underscore)
    with c ih xs True show ?thesis
      by (auto simp: digit_or_underscore_def dest: is_digit_not_underscore)
  next
    case False
    with "3.prems" have c: "is_digit c" and s: "digits_grouped (d # s)" by simp_all
    from "3.IH"(2) [OF False s] have ih: "is_digit d" "is_digit (last (d # s))"
      "\<forall>c \<in> set (d # s). digit_or_underscore c" "\<not> double_underscore (d # s)" by simp_all
    with c False show ?thesis
      by (auto simp: digit_or_underscore_def dest: is_digit_not_underscore)
  qed
qed

lemma digits_groupedI:
  "s \<noteq> [] \<Longrightarrow> hd s \<noteq> CHR ''_'' \<Longrightarrow> last s \<noteq> CHR ''_'' \<Longrightarrow>
   \<forall>c \<in> set s. digit_or_underscore c \<Longrightarrow> \<not> double_underscore s \<Longrightarrow> digits_grouped s"
proof (induction s rule: digits_grouped.induct)
  case 1
  then show ?case by simp
next
  case (2 c)
  then show ?case by (simp add: digit_or_underscore_def)
next
  case (3 c d s)
  from "3.prems" have c: "is_digit c" by (simp add: digit_or_underscore_def)
  show ?case
  proof (cases "d = CHR ''_''")
    case True
    from "3.prems"(3) True have ne: "s \<noteq> []" by auto
    then obtain x xs where xs: "s = x # xs" by (cases s) auto
    from "3.prems"(5) True xs have "x \<noteq> CHR ''_''" by auto
    with "3.prems" xs have "digits_grouped s"
      by (intro "3.IH"(1) [OF True]) auto
    with c True show ?thesis by simp
  next
    case False
    with "3.prems" have "digits_grouped (d # s)"
      by (intro "3.IH"(2) [OF False]) auto
    with c False show ?thesis by simp
  qed
qed

lemma takeWhile_body:
  assumes "\<forall>c \<in> set body. digit_or_underscore c" and "list_all is_space ws"
  shows "takeWhile digit_or_underscore (body @ ws) = body"
    and "dropWhile digit_or_underscore (body @ ws) = ws"
proof -
  from assms(2) have "ws = [] \<or> \<not> digit_or_underscore (hd ws)"
    by (cases ws) (auto simp: is_space_not_digit_or_underscore)
  then have t: "takeWhile digit_or_underscore ws = []" and d: "dropWhile digit_or_underscore ws = ws"
    by (cases ws; auto)+
  have "takeWhile digit_or_underscore (body @ ws) = body @ takeWhile digit_or_underscore ws"
    using assms(1) by (intro takeWhile_append2) blast
  with t show "takeWhile digit_or_underscore (body @ ws) = body" by simp
  have "dropWhile digit_or_underscore (body @ ws) = dropWhile digit_or_underscore ws"
    using assms(1) by (intro dropWhile_append2) blast
  with d show "dropWhile digit_or_underscore (body @ ws) = ws" by simp
qed

lemma py_int_of_text:
  assumes ws1: "list_all is_space ws1" and ws2: "list_all is_space ws2"
    and sg: "sign_text sg" and body: "digits_grouped body"
  shows "py_int m (ws1 @ sg @ body @ ws2) =
           (if over_limit m (length (filter is_digit body)) then None
            else Some (signed_value sg body))"
proof -
  from digits_grouped_props [OF body] have b: "body \<noteq> []" "is_digit (hd body)" "is_digit (last body)"
    "\<forall>c \<in> set body. digit_or_underscore c" "\<not> double_underscore body" by simp_all
  define s1 where "s1 = sg @ body @ ws2"
  from b(1) have ne: "s1 \<noteq> []" by (simp add: s1_def)
  have hd1: "\<not> is_space (hd s1)"
    using sg b(1,2) by (auto simp: s1_def sign_text_def sign_not_space dest: is_digit_not_space)
  with ne have "dropWhile is_space s1 = s1" by (cases s1) auto
  moreover have "dropWhile is_space (ws1 @ s1) = dropWhile is_space s1"
    using ws1 by (intro dropWhile_append2) (simp add: list_all_iff)
  ultimately have e1: "s1 = dropWhile is_space (ws1 @ sg @ body @ ws2)"
    by (simp add: s1_def)
  have e2: "body @ ws2 = (if s1 \<noteq> [] \<and> (hd s1 = CHR ''+'' \<or> hd s1 = CHR ''-'') then tl s1 else s1)"
    using sg b(1,2) by (auto simp: s1_def sign_text_def dest: is_digit_not_sign)
  have neg: "(s1 \<noteq> [] \<and> hd s1 = CHR ''-'') = (sg = ''-'')"
    using sg b(1,2) by (auto simp: s1_def sign_text_def dest: is_digit_not_sign)
  have e3: "body = takeWhile digit_or_underscore (body @ ws2)"
    and e4: "ws2 = dropWhile digit_or_underscore (body @ ws2)"
    using takeWhile_body [OF b(4) ws2] by simp_all
  from ws2 have sp: "dropWhile is_space ws2 = []" by (simp add: list_all_iff)
  from b(2,3) have h: "hd body \<noteq> CHR ''_''" "last body \<noteq> CHR ''_''"
    by (auto dest: is_digit_not_underscore)
  show ?thesis
    unfolding py_int_unfold [OF e1 e2 e3 e4 refl] neg signed_value_def
    using b(1,5) h sp by simp
qed

lemma text_of_py_int:
  assumes "py_int m line = Some v"
  shows "\<exists>ws1 sg body ws2. line = ws1 @ sg @ body @ ws2 \<and>
           list_all is_space ws1 \<and> list_all is_space ws2 \<and> sign_text sg \<and>
           digits_grouped body \<and> \<not> over_limit m (length (filter is_digit body)) \<and>
           v = signed_value sg body"
proof -
  define s1 where "s1 = dropWhile is_space line"
  define s2 where "s2 = (if s1 \<noteq> [] \<and> (hd s1 = CHR ''+'' \<or> hd s1 = CHR ''-'') then tl s1 else s1)"
  define body where "body = takeWhile digit_or_underscore s2"
  define rest where "rest = dropWhile digit_or_underscore s2"
  define ws1 where "ws1 = takeWhile is_space line"
  define sg where "sg = (if s1 \<noteq> [] \<and> (hd s1 = CHR ''+'' \<or> hd s1 = CHR ''-'') then [hd s1] else [])"
  note u = py_int_unfold [OF s1_def s2_def body_def rest_def refl, of m]
  from assms have ok: "body \<noteq> []" "hd body \<noteq> CHR ''_''" "last body \<noteq> CHR ''_''"
    "\<not> double_underscore body" "dropWhile is_space rest = []"
    "\<not> over_limit m (length (filter is_digit body))"
    unfolding u by (auto split: if_splits)
  from assms have v: "v = (if s1 \<noteq> [] \<and> hd s1 = CHR ''-'' then - int (decimal (filter is_digit body))
      else int (decimal (filter is_digit body)))"
    unfolding u by (auto split: if_splits)
  have l1: "line = ws1 @ s1" by (simp add: ws1_def s1_def)
  have l2: "s1 = sg @ s2" by (cases s1) (auto simp: sg_def s2_def)
  have l3: "s2 = body @ rest" by (simp add: body_def rest_def)
  have w1: "list_all is_space ws1"
    unfolding ws1_def list_all_iff by (auto dest: set_takeWhileD)
  from ok(5) have w2: "list_all is_space rest"
    by (simp add: list_all_iff dropWhile_eq_Nil_conv)
  have sgt: "sign_text sg" by (auto simp: sg_def sign_text_def)
  have "\<forall>c \<in> set body. digit_or_underscore c"
    unfolding body_def by (auto dest: set_takeWhileD)
  with ok have g: "digits_grouped body" by (intro digits_groupedI)
  have "(s1 \<noteq> [] \<and> hd s1 = CHR ''-'') = (sg = ''-'')" by (auto simp: sg_def)
  with v have val: "v = signed_value sg body" by (simp add: signed_value_def)
  from l1 l2 l3 have "line = ws1 @ sg @ body @ rest" by simp
  with w1 w2 sgt g ok(6) val show ?thesis by blast
qed

lemma conventional_text:
  "conventional_integer line =
     (\<exists>ws1 sg body ws2. line = ws1 @ sg @ body @ ws2 \<and> list_all is_space ws1 \<and>
        list_all is_space ws2 \<and> sign_text sg \<and> body \<noteq> [] \<and> list_all is_digit body)"
  (is "?L = ?R")
proof
  assume ?L
  define s1 where "s1 = dropWhile is_space line"
  define s2 where "s2 = (if s1 \<noteq> [] \<and> (hd s1 = CHR ''+'' \<or> hd s1 = CHR ''-'') then tl s1 else s1)"
  define ws1 where "ws1 = takeWhile is_space line"
  define sg where "sg = (if s1 \<noteq> [] \<and> (hd s1 = CHR ''+'' \<or> hd s1 = CHR ''-'') then [hd s1] else [])"
  from \<open>?L\<close> have "takeWhile is_digit s2 \<noteq> [] \<and> list_all is_space (dropWhile is_digit s2)"
    unfolding conventional_integer_def Let_def s2_def s1_def .
  then have ds: "takeWhile is_digit s2 \<noteq> []" and rest: "list_all is_space (dropWhile is_digit s2)"
    by blast+
  have l1: "line = ws1 @ s1" by (simp add: ws1_def s1_def)
  have l2: "s1 = sg @ s2" by (cases s1) (auto simp: sg_def s2_def)
  have l3: "s2 = takeWhile is_digit s2 @ dropWhile is_digit s2" by simp
  have w1: "list_all is_space ws1"
    unfolding ws1_def list_all_iff by (auto dest: set_takeWhileD)
  have sgt: "sign_text sg" by (auto simp: sg_def sign_text_def)
  have dg: "list_all is_digit (takeWhile is_digit s2)"
    unfolding list_all_iff by (auto dest: set_takeWhileD)
  from l1 l2 l3 have "line = ws1 @ sg @ takeWhile is_digit s2 @ dropWhile is_digit s2" by simp
  with w1 rest sgt ds dg show ?R by blast
next
  assume ?R
  then obtain ws1 sg body ws2 where f: "line = ws1 @ sg @ body @ ws2" "list_all is_space ws1"
    "list_all is_space ws2" "sign_text sg" "body \<noteq> []" "list_all is_digit body" by blast
  define s1 where "s1 = sg @ body @ ws2"
  from f(5,6) have hb: "is_digit (hd body)" by (cases body) auto
  from f(5) have ne: "s1 \<noteq> []" by (simp add: s1_def)
  have "\<not> is_space (hd s1)"
    using f(4,5) hb by (auto simp: s1_def sign_text_def sign_not_space dest: is_digit_not_space)
  with ne have "dropWhile is_space s1 = s1" by (cases s1) auto
  moreover have "dropWhile is_space (ws1 @ s1) = dropWhile is_space s1"
    using f(2) by (intro dropWhile_append2) (simp add: list_all_iff)
  ultimately have e1: "dropWhile is_space line = s1" by (simp add: s1_def f(1))
  have e2: "(if s1 \<noteq> [] \<and> (hd s1 = CHR ''+'' \<or> hd s1 = CHR ''-'') then tl s1 else s1) = body @ ws2"
    using f(4,5) hb by (auto simp: s1_def sign_text_def dest: is_digit_not_sign)
  from f(3) have "ws2 = [] \<or> \<not> is_digit (hd ws2)"
    by (cases ws2) (auto dest: is_digit_not_space)
  then have t: "takeWhile is_digit ws2 = []" and d: "dropWhile is_digit ws2 = ws2"
    by (cases ws2; auto)+
  have "takeWhile is_digit (body @ ws2) = body @ takeWhile is_digit ws2"
    using f(6) by (intro takeWhile_append2) (simp add: list_all_iff)
  with t have e3: "takeWhile is_digit (body @ ws2) = body" by simp
  have "dropWhile is_digit (body @ ws2) = dropWhile is_digit ws2"
    using f(6) by (intro dropWhile_append2) (simp add: list_all_iff)
  with d have e4: "dropWhile is_digit (body @ ws2) = ws2" by simp
  show ?L
    unfolding conventional_integer_def Let_def e1 e2 e3 e4 using f(3,5) by simp
qed

lemma all_digits_grouped: "body \<noteq> [] \<Longrightarrow> list_all is_digit body \<Longrightarrow> digits_grouped body"
  by (induction body rule: digits_grouped.induct) (auto dest: is_digit_not_underscore)

lemma count_digits_text:
  assumes "list_all is_space ws1" "list_all is_space ws2" "sign_text sg"
  shows "filter is_digit (ws1 @ sg @ body @ ws2) = filter is_digit body"
proof -
  have "filter is_digit ws1 = []" "filter is_digit ws2 = []"
    using assms(1,2) by (auto simp: list_all_iff filter_empty_conv dest: is_digit_not_space)
  moreover have "filter is_digit sg = []"
    using assms(3) by (auto simp: sign_text_def is_digit_def)
  ultimately show ?thesis by simp
qed

lemma conventional_accepted_iff:
  assumes "conventional_integer line"
  shows "(py_int m line \<noteq> None) = (\<not> over_limit m (length (filter is_digit line)))"
proof -
  from assms obtain ws1 sg body ws2 where f: "line = ws1 @ sg @ body @ ws2" "list_all is_space ws1"
    "list_all is_space ws2" "sign_text sg" "body \<noteq> []" "list_all is_digit body"
    unfolding conventional_text by blast
  from f(5,6) have g: "digits_grouped body" by (rule all_digits_grouped)
  have c: "filter is_digit line = filter is_digit body"
    unfolding f(1) using f(2,3,4) by (rule count_digits_text)
  show ?thesis
    unfolding c unfolding f(1) py_int_of_text [OF f(2,3,4) g] by simp
qed

lemma decimal_snoc: "decimal (ds @ [c]) = 10 * decimal ds + (of_char c - 48)"
  by (simp add: decimal_def)

text \<open>
  Claim C9 says that the integer-input step accepts exactly the conventional textual
  representations of a signed integer. The line \<open>1_0\<close> is not one, and \<open>int\<close> reads it
  as 10: Python allows single underscores between digits.
\<close>

theorem underscore_counterexample:
  "\<not> conventional_integer ''1_0\<newline>'' \<and>
   fst (read_int 1 pile_prompt (new_driver [Line ''1_0\<newline>''] (\<lambda>_. 0) 4300)) = Returned 10"
  by code_simp

text \<open>
  Claim C9, amended. First, what the step does with what \<open>int\<close> says: when the reader
  holds any number of lines that \<open>int\<close> rejects and then one it accepts, \<open>read_int\<close>
  (with fuel for one pass more than the rejected lines) writes the prompt and the
  invalid-integer message for each rejected line, writes the prompt once more, and
  returns the value of the accepted line; only the reader and the trace change, the
  game does not. Second, the lines \<open>int\<close> accepts, from both sides: a line made of
  white space, a sign, a body of digits grouped by single underscores and white space
  is accepted with its signed value unless the body has more digits than the
  interpreter's limit allows; and every accepted line is such a line, with its digits
  within the limit and that value. Third, a conventional representation of a signed
  integer, white space around it tolerated, is accepted exactly when the number of
  its digits is within the limit. Last, the value of a run of digits is positional in
  base ten.
\<close>

theorem read_int_accepts:
  "((\<forall>l \<in> set bad. py_int (int_max_str_digits d) l = None) \<and>
    py_int (int_max_str_digits d) good = Some v \<and>
    reader d = map Line bad @ Line good # r \<and> length bad < n \<longrightarrow>
      read_int n prompt d =
        (Returned v,
         d\<lparr>reader := r,
           trace := trace d @
             concat (map (\<lambda>l. [Wrote (prompt @ ''\<newline>> ''), ReadOk l, Wrote invalid_integer]) bad) @
             [Wrote (prompt @ ''\<newline>> ''), ReadOk good]\<rparr>)) \<and>
   (list_all is_space ws1 \<and> list_all is_space ws2 \<and> sign_text sg \<and> digits_grouped body \<longrightarrow>
      py_int m (ws1 @ sg @ body @ ws2) =
        (if over_limit m (length (filter is_digit body)) then None
         else Some (signed_value sg body))) \<and>
   (py_int m line = Some w \<longrightarrow>
      (\<exists>ws1 sg body ws2. line = ws1 @ sg @ body @ ws2 \<and>
         list_all is_space ws1 \<and> list_all is_space ws2 \<and> sign_text sg \<and>
         digits_grouped body \<and> \<not> over_limit m (length (filter is_digit body)) \<and>
         w = signed_value sg body)) \<and>
   (conventional_integer cline \<longrightarrow>
      (py_int m cline \<noteq> None) = (\<not> over_limit m (length (filter is_digit cline)))) \<and>
   decimal [] = 0 \<and> decimal (ds @ [c]) = 10 * decimal ds + (of_char c - 48)"
  using read_int_attempts [of bad d good v r n prompt] py_int_of_text [of ws1 ws2 sg body m]
    text_of_py_int [of m line w] conventional_accepted_iff [of cline m] decimal_snoc [of ds c]
  by (intro conjI) (blast, blast, blast, blast, simp add: decimal_def, blast)

text \<open>
  Two rejected lines, \<open>abc\<close> and an empty line, then \<open>-42\<close> with a leading space, and
  a fourth line that stays in the reader; the body \<open>1_000\<close> under the sign \<open>-\<close>; the
  accepted line \<open>+7\<close>; and lines that are rejected: \<open>12abc\<close>, \<open>1__0\<close>, \<open>_1\<close>, \<open>1_\<close> and
  \<open>- 1\<close>.
\<close>

theorem read_int_accepts_witness:
  "read_int 3 pile_prompt
     (new_driver [Line ''abc\<newline>'', Line ''\<newline>'', Line '' -42\<newline>'', Line ''7\<newline>''] (\<lambda>_. 0) 4300) =
     (Returned (- 42),
      \<lparr>game = nim_init, reader = [Line ''7\<newline>''],
       trace = [Wrote (pile_prompt @ ''\<newline>> ''), ReadOk ''abc\<newline>'', Wrote invalid_integer,
                Wrote (pile_prompt @ ''\<newline>> ''), ReadOk ''\<newline>'', Wrote invalid_integer,
                Wrote (pile_prompt @ ''\<newline>> ''), ReadOk '' -42\<newline>''],
       rng = (\<lambda>_. 0), rng_pos = 0, int_max_str_digits = 4300\<rparr>) \<and>
   digits_grouped ''1_000'' \<and> py_int 4300 '' -1_000\<newline>'' = Some (- 1000) \<and>
   py_int 4300 ''+7 \<newline>'' = Some 7 \<and>
   (\<exists>ws1 sg body ws2. ''+7 \<newline>'' = ws1 @ sg @ body @ ws2 \<and>
      list_all is_space ws1 \<and> list_all is_space ws2 \<and> sign_text sg \<and>
      digits_grouped body \<and> 7 = signed_value sg body) \<and>
   conventional_integer '' -42\<newline>'' \<and> py_int 4300 '' -42\<newline>'' \<noteq> None \<and>
   py_int 4300 ''12abc\<newline>'' = None \<and> py_int 4300 ''1__0\<newline>'' = None \<and>
   py_int 4300 ''_1\<newline>'' = None \<and> py_int 4300 ''1_\<newline>'' = None \<and>
   py_int 4300 ''- 1\<newline>'' = None"
proof -
  have p: "py_int 4300 ''abc\<newline>'' = None" "py_int 4300 ''\<newline>'' = None"
    "py_int 4300 '' -42\<newline>'' = Some (- 42)"
    by code_simp+
  let ?d = "new_driver [Line ''abc\<newline>'', Line ''\<newline>'', Line '' -42\<newline>'', Line ''7\<newline>''] (\<lambda>_. 0) 4300"
  have h1: "(\<forall>l \<in> set [''abc\<newline>'', ''\<newline>'']. py_int (int_max_str_digits ?d) l = None) \<and>
    py_int (int_max_str_digits ?d) '' -42\<newline>'' = Some (- 42) \<and>
    reader ?d = map Line [''abc\<newline>'', ''\<newline>''] @ Line '' -42\<newline>'' # [Line ''7\<newline>''] \<and>
    length [''abc\<newline>'', ''\<newline>''] < (3::nat)"
    using p by (simp add: new_driver_def)
  have h2: "list_all is_space '' '' \<and> list_all is_space ''\<newline>'' \<and> sign_text ''-'' \<and>
    digits_grouped ''1_000''"
    by code_simp
  have h3: "py_int 4300 ''+7 \<newline>'' = Some 7"
    by code_simp
  have h4: "conventional_integer '' -42\<newline>''"
    by code_simp
  have e: "over_limit 4300 (length (filter is_digit ''1_000'')) = False"
    "signed_value ''-'' ''1_000'' = - 1000"
    "over_limit 4300 (length (filter is_digit '' -42\<newline>'')) = False"
    by code_simp+
  have n: "py_int 4300 ''12abc\<newline>'' = None" "py_int 4300 ''1__0\<newline>'' = None"
    "py_int 4300 ''_1\<newline>'' = None" "py_int 4300 ''1_\<newline>'' = None"
    "py_int 4300 ''- 1\<newline>'' = None"
    by code_simp+
  note t = read_int_accepts [of "[''abc\<newline>'', ''\<newline>'']" ?d "'' -42\<newline>''" "- 42" "[Line ''7\<newline>'']" 3
      pile_prompt "'' ''" "''\<newline>''" "''-''" "''1_000''" 4300 "''+7 \<newline>''" 7 "'' -42\<newline>''" "[]" "CHR ''0''"]
  from t h1 have "read_int 3 pile_prompt ?d =
        (Returned (- 42),
         ?d\<lparr>reader := [Line ''7\<newline>''],
           trace := trace ?d @
             concat (map (\<lambda>l. [Wrote (pile_prompt @ ''\<newline>> ''), ReadOk l, Wrote invalid_integer])
               [''abc\<newline>'', ''\<newline>'']) @
             [Wrote (pile_prompt @ ''\<newline>> ''), ReadOk '' -42\<newline>'']\<rparr>)"
    by blast
  then have a: "read_int 3 pile_prompt ?d =
     (Returned (- 42),
      \<lparr>game = nim_init, reader = [Line ''7\<newline>''],
       trace = [Wrote (pile_prompt @ ''\<newline>> ''), ReadOk ''abc\<newline>'', Wrote invalid_integer,
                Wrote (pile_prompt @ ''\<newline>> ''), ReadOk ''\<newline>'', Wrote invalid_integer,
                Wrote (pile_prompt @ ''\<newline>> ''), ReadOk '' -42\<newline>''],
       rng = (\<lambda>_. 0), rng_pos = 0, int_max_str_digits = 4300\<rparr>)"
    by (simp add: new_driver_def)
  from t h2 have "py_int 4300 ('' '' @ ''-'' @ ''1_000'' @ ''\<newline>'') =
        (if over_limit 4300 (length (filter is_digit ''1_000'')) then None
         else Some (signed_value ''-'' ''1_000''))"
    by blast
  then have b: "py_int 4300 '' -1_000\<newline>'' = Some (- 1000)"
    unfolding e by simp
  from t h3 have c: "\<exists>ws1 sg body ws2. ''+7 \<newline>'' = ws1 @ sg @ body @ ws2 \<and>
         list_all is_space ws1 \<and> list_all is_space ws2 \<and> sign_text sg \<and>
         digits_grouped body \<and> \<not> over_limit 4300 (length (filter is_digit body)) \<and>
         7 = signed_value sg body"
    by blast
  from t h4 have "(py_int 4300 '' -42\<newline>'' \<noteq> None) =
      (\<not> over_limit 4300 (length (filter is_digit '' -42\<newline>'')))"
    by blast
  then have d: "py_int 4300 '' -42\<newline>'' \<noteq> None"
    unfolding e by simp
  from a b c d h2 h3 h4 n show ?thesis by blast
qed

subsection \<open>Rules for triples\<close>

lemma io_tripleI:
  assumes "\<And>d. P d \<Longrightarrow>
     (case m d of (Returned v, d') \<Rightarrow> Q v d' | (Raised e, d') \<Rightarrow> X e d' | (Running, d') \<Rightarrow> U d')"
  shows "io_triple P m Q X U"
  using assms by (simp add: io_triple_def)

lemma io_tripleD:
  assumes "io_triple P m Q X U" and "P d"
  shows "case m d of (Returned v, d') \<Rightarrow> Q v d' | (Raised e, d') \<Rightarrow> X e d' | (Running, d') \<Rightarrow> U d'"
  using assms by (simp add: io_triple_def)

lemma triple_bind:
  assumes "io_triple P m R X U" and "\<And>v. io_triple (R v) (f v) Q X U"
  shows "io_triple P (io_bind m f) Q X U"
proof (rule io_tripleI)
  fix d assume "P d"
  with assms(1) have m: "case m d of (Returned v, d') \<Rightarrow> R v d' | (Raised e, d') \<Rightarrow> X e d' | (Running, d') \<Rightarrow> U d'"
    by (rule io_tripleD)
  obtain r d' where md: "m d = (r, d')" by (cases "m d")
  show "case io_bind m f d of (Returned v, d') \<Rightarrow> Q v d' | (Raised e, d') \<Rightarrow> X e d' | (Running, d') \<Rightarrow> U d'"
  proof (cases r)
    case (Returned v)
    with m md have "R v d'" by simp
    with assms(2) [of v] have "case f v d' of (Returned v, d') \<Rightarrow> Q v d' | (Raised e, d') \<Rightarrow> X e d' | (Running, d') \<Rightarrow> U d'"
      by (rule io_tripleD)
    with md Returned show ?thesis by (simp add: io_bind_def)
  next
    case (Raised e)
    with m md show ?thesis by (simp add: io_bind_def)
  next
    case Running
    with m md show ?thesis by (simp add: io_bind_def)
  qed
qed

lemma triple_pre:
  assumes "io_triple P' m Q X U" and "\<And>d. P d \<Longrightarrow> P' d"
  shows "io_triple P m Q X U"
  using assms by (simp add: io_triple_def)

lemma triple_post:
  assumes "io_triple P m Q' X' U'"
    and "\<And>v d. Q' v d \<Longrightarrow> Q v d" and "\<And>e d. X' e d \<Longrightarrow> X e d" and "\<And>d. U' d \<Longrightarrow> U d"
  shows "io_triple P m Q X U"
  unfolding io_triple_def
proof (intro allI impI)
  fix d assume "P d"
  with assms(1) have "case m d of (Returned v, d') \<Rightarrow> Q' v d' | (Raised e, d') \<Rightarrow> X' e d' | (Running, d') \<Rightarrow> U' d'"
    by (rule io_tripleD)
  with assms(2-4) show "case m d of (Returned v, d') \<Rightarrow> Q v d' | (Raised e, d') \<Rightarrow> X e d' | (Running, d') \<Rightarrow> U d'"
    by (auto split: prod.splits outcome.splits)
qed

lemma triple_write:
  assumes "\<And>d. P d \<Longrightarrow> Q () (d\<lparr>trace := trace d @ [Wrote s]\<rparr>)"
  shows "io_triple P (writer_write s) Q X U"
  using assms by (simp add: io_triple_def writer_write_def)

lemma triple_drain:
  assumes "\<And>d. P d \<Longrightarrow> Q () d"
  shows "io_triple P drain Q X U"
  using assms by (simp add: io_triple_def drain_def)

lemma triple_sleep:
  assumes "\<And>d. P d \<Longrightarrow> Q () d"
  shows "io_triple P sleep Q X U"
  using assms by (simp add: io_triple_def sleep_def)

lemma triple_wait_closed:
  assumes "\<And>d. P d \<Longrightarrow> Q () d"
  shows "io_triple P wait_closed Q X U"
  using assms by (simp add: io_triple_def wait_closed_def)

lemma triple_close:
  assumes "\<And>d. P d \<Longrightarrow> Q () (d\<lparr>trace := trace d @ [Closed]\<rparr>)"
  shows "io_triple P close Q X U"
  using assms by (simp add: io_triple_def close_def)

lemma triple_return:
  assumes "\<And>d. P d \<Longrightarrow> Q v d"
  shows "io_triple P (io_return v) Q X U"
  using assms by (simp add: io_triple_def io_return_def)

lemma triple_running:
  assumes "\<And>d. P d \<Longrightarrow> U d"
  shows "io_triple P (\<lambda>d. (Running, d)) Q X U"
  using assms by (simp add: io_triple_def)

lemma triple_readline:
  assumes "\<And>d. P d \<Longrightarrow> reader d = [] \<Longrightarrow> Q [] (d\<lparr>trace := trace d @ [ReadOk []]\<rparr>)"
    and "\<And>d s r. P d \<Longrightarrow> reader d = Line s # r \<Longrightarrow> Q s (d\<lparr>reader := r, trace := trace d @ [ReadOk s]\<rparr>)"
    and "\<And>d r. P d \<Longrightarrow> reader d = Broken # r \<Longrightarrow>
           X TransportError (d\<lparr>reader := r, trace := trace d @ [ReadFailed]\<rparr>)"
  shows "io_triple P readline Q X U"
  using assms by (auto simp: io_triple_def readline_def split: list.splits read_event.splits)

lemma triple_if:
  assumes "b \<Longrightarrow> io_triple P m1 Q X U" and "\<not> b \<Longrightarrow> io_triple P m2 Q X U"
  shows "io_triple P (if b then m1 else m2) Q X U"
  using assms by simp

lemma triple_can_continue:
  assumes "\<And>d. P d \<Longrightarrow> Q (can_continue (game d)) d"
  shows "io_triple P nim_can_continue Q X U"
  using assms by (simp add: io_triple_def nim_can_continue_def)

lemma triple_render:
  assumes "\<And>d. P d \<Longrightarrow> Q (nim_str (game d)) d"
  shows "io_triple P nim_render Q X U"
  using assms by (simp add: io_triple_def nim_render_def)

lemma triple_builtin_int:
  assumes "\<And>d v. P d \<Longrightarrow> py_int (int_max_str_digits d) line = Some v \<Longrightarrow> Q v d"
    and "\<And>d. P d \<Longrightarrow> py_int (int_max_str_digits d) line = None \<Longrightarrow> X ValueError d"
  shows "io_triple P (builtin_int line) Q X U"
  using assms by (auto simp: io_triple_def builtin_int_def split: option.splits)

lemma triple_try:
  assumes "io_triple P body Q (\<lambda>e d. if e = ValueError then H d else X e d) U"
    and "io_triple H handler Q X U"
  shows "io_triple P (try_except_ValueError body handler) Q X U"
proof (rule io_tripleI)
  fix d assume "P d"
  with assms(1) have b: "case body d of (Returned v, d') \<Rightarrow> Q v d'
      | (Raised e, d') \<Rightarrow> (if e = ValueError then H d' else X e d') | (Running, d') \<Rightarrow> U d'"
    by (rule io_tripleD)
  obtain r d' where bd: "body d = (r, d')" by (cases "body d")
  show "case try_except_ValueError body handler d of (Returned v, d') \<Rightarrow> Q v d'
      | (Raised e, d') \<Rightarrow> X e d' | (Running, d') \<Rightarrow> U d'"
  proof (cases r)
    case (Returned v)
    with b bd show ?thesis by (simp add: try_except_ValueError_def)
  next
    case (Raised e)
    show ?thesis
    proof (cases "e = ValueError")
      case True
      with b bd Raised have "H d'" by simp
      with assms(2) have "case handler d' of (Returned v, d') \<Rightarrow> Q v d'
          | (Raised e, d') \<Rightarrow> X e d' | (Running, d') \<Rightarrow> U d'"
        by (rule io_tripleD)
      with bd Raised True show ?thesis by (simp add: try_except_ValueError_def)
    next
      case False
      with b bd Raised show ?thesis by (simp add: try_except_ValueError_def)
    qed
  next
    case Running
    with b bd show ?thesis by (simp add: try_except_ValueError_def)
  qed
qed

lemma triple_move_is_valid:
  assumes "\<And>d b. P d \<Longrightarrow> move_is_valid (game d) pile amount = Inr b \<Longrightarrow> Q b d"
    and "\<And>d e. P d \<Longrightarrow> move_is_valid (game d) pile amount = Inl e \<Longrightarrow> X e d"
  shows "io_triple P (nim_move_is_valid pile amount) Q X U"
  using assms by (auto simp: io_triple_def nim_move_is_valid_def split: sum.splits)

lemma triple_for_loop:
  assumes "\<And>x. io_triple P (body x) (\<lambda>_. P) X U"
  shows "io_triple P (for_loop xs body) (\<lambda>_. P) X U"
proof (induction xs)
  case Nil
  show ?case by (simp add: triple_return)
next
  case (Cons x xs)
  show ?case unfolding for_loop.simps
    by (rule triple_bind [OF assms]) (rule Cons.IH)
qed

subsection \<open>The move the player is asked for\<close>

lemma same_game_read_int: "same_game g (read_int n prompt)"
proof (induction n)
  case 0
  show ?case unfolding same_game_def by (simp add: triple_running)
next
  case (Suc n)
  show ?case
    unfolding same_game_def read_int.simps
    apply (rule triple_bind [where R = "\<lambda>_ d. game d = g"])
     apply (rule triple_write, simp)
    apply (rule triple_bind [where R = "\<lambda>_ d. game d = g"])
     apply (rule triple_drain, simp)
    apply (rule triple_bind [where R = "\<lambda>_ d. game d = g"])
     apply (rule triple_readline; simp)
    apply (rule triple_try [where H = "\<lambda>d. game d = g"])
     apply (rule triple_bind [where R = "\<lambda>_ d. game d = g"])
      apply (rule triple_builtin_int; simp)
     apply (rule triple_return, simp)
    apply (rule triple_bind [where R = "\<lambda>_ d. game d = g"])
     apply (rule triple_write, simp)
    apply (rule triple_bind [where R = "\<lambda>_ d. game d = g"])
     apply (rule triple_drain, simp)
    apply (rule Suc.IH [unfolded same_game_def])
    done
qed

lemma same_game_ask_move: "same_game g (ask_move n)"
  unfolding same_game_def ask_move_def
  apply (rule triple_bind [where R = "\<lambda>_ d. game d = g"])
   apply (rule same_game_read_int [unfolded same_game_def])
  apply (rule triple_bind [where R = "\<lambda>_ d. game d = g"])
   apply (rule same_game_read_int [unfolded same_game_def])
  apply (rule triple_return, simp)
  done

lemma move_is_valid_not_assert: "move_is_valid g p a \<noteq> Inl AssertionError"
  by (auto simp: move_is_valid_def py_getitem_def py_index_def Let_def split: if_splits sum.splits)

lemma validate_triple:
  "io_triple (\<lambda>d. game d = g) (validate n mv)
     (\<lambda>mv' d. game d = g \<and> move_is_valid g (fst mv') (snd mv') = Inr True)
     (\<lambda>e d. game d = g \<and> e \<noteq> AssertionError) (\<lambda>d. game d = g)"
proof (induction n arbitrary: mv)
  case 0
  show ?case by (simp add: triple_running)
next
  case (Suc n)
  show ?case
    unfolding validate.simps
    apply (rule triple_bind [where R = "\<lambda>ok d. game d = g \<and> move_is_valid g (fst mv) (snd mv) = Inr ok"])
     apply (rule triple_move_is_valid)
      apply simp
     apply (metis move_is_valid_not_assert)
    subgoal for ok
      apply (cases ok)
       apply simp
       apply (rule triple_return, simp)
      apply simp
      apply (rule triple_bind [where R = "\<lambda>_ d. game d = g"])
       apply (rule triple_write, simp)
      apply (rule triple_bind [where R = "\<lambda>_ d. game d = g"])
       apply (rule same_game_ask_move [unfolded same_game_def])
      apply (rule triple_bind [where R = "\<lambda>_ d. game d = g"])
       apply (rule triple_drain, simp)
      apply (rule Suc.IH)
      done
    done
qed

lemma validate_game:
  "game (snd (validate k mv d)) = game d \<and>
   (fst (validate k mv d) = Returned mv' \<longrightarrow> move_is_valid (game d) (fst mv') (snd mv') = Inr True)"
proof -
  have "case validate k mv d of
          (Returned mv', d') \<Rightarrow> game d' = game d \<and> move_is_valid (game d) (fst mv') (snd mv') = Inr True
        | (Raised e, d') \<Rightarrow> game d' = game d \<and> e \<noteq> AssertionError
        | (Running, d') \<Rightarrow> game d' = game d"
    by (rule io_tripleD [OF validate_triple]) simp
  then show ?thesis by (auto split: prod.splits outcome.splits)
qed

lemma validate_step:
  assumes "move_is_valid (game d) p a = Inr False"
    and "reader d = Line lp # Line la # r"
    and "py_int (int_max_str_digits d) lp = Some p'"
    and "py_int (int_max_str_digits d) la = Some a'"
  shows "validate (Suc (Suc n)) (p, a) d =
           validate (Suc n) (p', a')
             (d\<lparr>reader := r,
                trace := trace d @
                  [Wrote not_valid,
                   Wrote (pile_prompt @ ''\<newline>> ''), ReadOk lp,
                   Wrote (amount_prompt @ ''\<newline>> ''), ReadOk la]\<rparr>)"
proof -
  let ?d1 = "d\<lparr>trace := trace d @ [Wrote not_valid]\<rparr>"
  let ?d2 = "?d1\<lparr>reader := Line la # r,
               trace := trace ?d1 @ [Wrote (pile_prompt @ ''\<newline>> ''), ReadOk lp]\<rparr>"
  let ?d3 = "?d2\<lparr>reader := r,
               trace := trace ?d2 @ [Wrote (amount_prompt @ ''\<newline>> ''), ReadOk la]\<rparr>"
  from assms(2,3) have r1: "read_int (Suc n) pile_prompt ?d1 = (Returned p', ?d2)"
    by (intro read_int_accept) simp_all
  from assms(4) have r2: "read_int (Suc n) amount_prompt ?d2 = (Returned a', ?d3)"
    by (intro read_int_accept) simp_all
  from r1 r2 have ask: "ask_move (Suc n) ?d1 = (Returned (p', a'), ?d3)"
    by (simp add: ask_move_def io_bind_def io_return_def)
  from assms(1) have v: "nim_move_is_valid p a d = (Returned False, d)"
    by (simp add: nim_move_is_valid_def)
  have "validate (Suc (Suc n)) (p, a) d = validate (Suc n) (p', a') ?d3"
    using v ask by (simp add: io_bind_def del: validate.simps(2) read_int.simps)
       (simp add: io_bind_def drain_def writer_write_def del: read_int.simps)
  then show ?thesis by simp
qed

subsection \<open>The progress bar\<close>

text \<open>
  The fifteen frames and the newline, as one step on the trace. The equation is also
  the one sessions are evaluated with.
\<close>

lemma for_loop_writes:
  assumes "\<And>i d. body i d = (Returned (), d\<lparr>trace := trace d @ [Wrote (f i)]\<rparr>)"
  shows "for_loop xs body d = (Returned (), d\<lparr>trace := trace d @ map (\<lambda>i. Wrote (f i)) xs\<rparr>)"
proof (induction xs arbitrary: d)
  case Nil
  show ?case by (simp add: io_return_def)
next
  case (Cons x xs)
  let ?d = "d\<lparr>trace := trace d @ [Wrote (f x)]\<rparr>"
  have "for_loop (x # xs) body d = for_loop xs body ?d"
    by (simp add: io_bind_def assms [of x d])
  also have "\<dots> = (Returned (), ?d\<lparr>trace := trace ?d @ map (\<lambda>i. Wrote (f i)) xs\<rparr>)"
    by (rule Cons.IH)
  finally show ?case by simp
qed

lemma fake_progress_bar_run:
  "fake_progress_bar prompt d =
     (Returned (),
      d\<lparr>trace := trace d @
        map (\<lambda>i. Wrote ([CHR 0x0D] @ prompt @ '': '' @ rjust 3 (replicate (i mod 3 + 1) CHR ''*''))) [0..<15] @
        [Wrote ''\<newline>'']\<rparr>)"
proof -
  let ?f = "\<lambda>i. [CHR 0x0D] @ prompt @ '': '' @ rjust 3 (replicate (i mod 3 + 1) CHR ''*'')"
  have "for_loop [0..<15] (\<lambda>i. io_bind (writer_write (?f i)) (\<lambda>_. io_bind drain (\<lambda>_. sleep))) d =
      (Returned (), d\<lparr>trace := trace d @ map (\<lambda>i. Wrote (?f i)) [0..<15]\<rparr>)"
    by (rule for_loop_writes) (simp add: sleep_def)
  then show ?thesis
    unfolding fake_progress_bar_def by (simp add: io_bind_def writer_write_def del: upt.simps)
qed

lemma fake_progress_bar_code [code]:
  "fake_progress_bar prompt d =
     (Returned (),
      d\<lparr>trace := trace d @
        map (\<lambda>i. Wrote ([CHR 0x0D] @ prompt @ '': '' @ rjust 3 (replicate (i mod 3 + 1) CHR ''*''))) [0..<15] @
        [Wrote ''\<newline>'']\<rparr>)"
  by (rule fake_progress_bar_run)

subsection \<open>The engine over a session\<close>

lemma triple_fix_game:
  assumes "\<And>g. G g \<Longrightarrow>
     io_triple (\<lambda>d. game d = g) m (\<lambda>v d. game d = g \<and> Q g v)
       (\<lambda>e d. game d = g \<and> e \<noteq> AssertionError) (\<lambda>d. game d = g)"
  shows "io_triple (\<lambda>d. G (game d)) m (\<lambda>v d. G (game d) \<and> Q (game d) v)
           (\<lambda>e d. G (game d) \<and> e \<noteq> AssertionError) (\<lambda>d. G (game d))"
proof (rule io_tripleI)
  fix d :: driver assume G: "G (game d)"
  have "case m d of (Returned v, d') \<Rightarrow> game d' = game d \<and> Q (game d) v
        | (Raised e, d') \<Rightarrow> game d' = game d \<and> e \<noteq> AssertionError
        | (Running, d') \<Rightarrow> game d' = game d"
    by (rule io_tripleD [OF assms [OF G]]) simp
  with G show "case m d of (Returned v, d') \<Rightarrow> G (game d') \<and> Q (game d') v
        | (Raised e, d') \<Rightarrow> G (game d') \<and> e \<noteq> AssertionError | (Running, d') \<Rightarrow> G (game d')"
    by (auto split: prod.splits outcome.splits)
qed

lemma engine_safe_ask_move: "engine_safe (ask_move n)"
  unfolding engine_safe_def game_ok_def
  using triple_fix_game [where G = reachable and m = "ask_move n" and Q = "\<lambda>_ _. True"]
    same_game_ask_move [unfolded same_game_def]
  by simp

lemma validate_safe:
  "io_triple game_ok (validate n mv)
     (\<lambda>mv' d. game_ok d \<and> move_is_valid (game d) (fst mv') (snd mv') = Inr True)
     (\<lambda>e d. game_ok d \<and> e \<noteq> AssertionError) game_ok"
  unfolding game_ok_def
  using triple_fix_game [where G = reachable and m = "validate n mv"
      and Q = "\<lambda>g mv'. move_is_valid g (fst mv') (snd mv') = Inr True"]
    validate_triple
  by simp

lemma play_safe:
  "io_triple (\<lambda>d. game_ok d \<and> move_is_valid (game d) p a = Inr True) (nim_play p a)
     (\<lambda>_. game_ok) (\<lambda>e d. game_ok d \<and> e \<noteq> AssertionError) game_ok"
proof (rule io_tripleI)
  fix d :: driver assume h: "game_ok d \<and> move_is_valid (game d) p a = Inr True"
  with play_valid [of "game d" p a] obtain g' where g': "play (game d) p a = (Inr (), g')"
    by blast
  with h have "reachable g'" by (auto simp: game_ok_def intro: reachable.move)
  with g' show "case nim_play p a d of (Returned v, d') \<Rightarrow> game_ok d'
      | (Raised e, d') \<Rightarrow> game_ok d' \<and> e \<noteq> AssertionError | (Running, d') \<Rightarrow> game_ok d'"
    by (simp add: nim_play_def game_ok_def)
qed

lemma random_move_valid:
  assumes "nim_inv g" and "can_continue g"
  shows "\<exists>p a. random_move r1 r2 g = Inr (p, a) \<and> move_is_valid g p a = Inr True"
proof -
  from assms have "\<forall>x \<in> set (piles g). 0 \<le> x" by (simp add: nim_inv_def)
  from random_move_legal_aux [OF this assms(2), of r1 r2]
  obtain p a where pa: "random_move r1 r2 g = Inr (p, a)" "0 \<le> p" "p < int (length (piles g))"
    "1 \<le> a" "a \<le> piles g ! nat p" by blast
  then have "move_is_valid g p a = Inr True"
    by (simp add: move_is_valid_def py_getitem_def py_index_nonneg)
  with pa(1) show ?thesis by blast
qed

lemma random_move_safe:
  "io_triple (\<lambda>d. game_ok d \<and> can_continue (game d)) nim_random_move
     (\<lambda>mv d. game_ok d \<and> move_is_valid (game d) (fst mv) (snd mv) = Inr True)
     (\<lambda>e d. game_ok d \<and> e \<noteq> AssertionError) game_ok"
proof (rule io_tripleI)
  fix d :: driver assume h: "game_ok d \<and> can_continue (game d)"
  then have "nim_inv (game d)" "can_continue (game d)"
    by (simp_all add: game_ok_def reachable_inv)
  from random_move_valid [OF this, of "rng d (rng_pos d)" "rng d (rng_pos d + 1)"]
  obtain p a where "random_move (rng d (rng_pos d)) (rng d (rng_pos d + 1)) (game d) = Inr (p, a)"
    "move_is_valid (game d) p a = Inr True" by blast
  with h show "case nim_random_move d of
      (Returned mv, d') \<Rightarrow> game_ok d' \<and> move_is_valid (game d') (fst mv) (snd mv) = Inr True
      | (Raised e, d') \<Rightarrow> game_ok d' \<and> e \<noteq> AssertionError | (Running, d') \<Rightarrow> game_ok d'"
    by (simp add: nim_random_move_def game_ok_def)
qed

lemma game_ok_trace [simp]: "game_ok (d\<lparr>trace := t\<rparr>) = game_ok d"
  by (simp add: game_ok_def)

lemma engine_safe_progress: "engine_safe (fake_progress_bar prompt)"
  unfolding engine_safe_def fake_progress_bar_def
  apply (rule triple_bind [where R = "\<lambda>_. game_ok"])
   apply (rule triple_for_loop)
   apply (rule triple_bind [where R = "\<lambda>_. game_ok"])
    apply (rule triple_write, simp)
   apply (rule triple_bind [where R = "\<lambda>_. game_ok"])
    apply (rule triple_drain, simp)
   apply (rule triple_sleep, simp)
  apply (rule triple_write, simp)
  done

lemma engine_safe_round: "engine_safe (driver_round n)"
  unfolding engine_safe_def driver_round_def
  apply (rule triple_bind [where R = "\<lambda>_. game_ok"])
   apply (rule triple_render, simp)
  apply (rule triple_bind [where R = "\<lambda>_. game_ok"])
   apply (rule triple_write, simp)
  apply (rule triple_bind [where R = "\<lambda>_. game_ok"])
   apply (rule triple_drain, simp)
  apply (rule triple_bind [where R = "\<lambda>_. game_ok"])
   apply (rule engine_safe_ask_move [unfolded engine_safe_def])
  apply (rule triple_bind [where R = "\<lambda>_. game_ok"])
   apply (rule triple_drain, simp)
  apply (rule triple_bind [where R = "\<lambda>mv d. game_ok d \<and> move_is_valid (game d) (fst mv) (snd mv) = Inr True"])
   apply (rule validate_safe)
  subgoal for s u1 u2 move u3 mv
    apply (cases mv)
    apply simp
    apply (rule triple_bind [where R = "\<lambda>_. game_ok"])
     apply (rule play_safe)
    apply (rule triple_bind [where R = "\<lambda>_. game_ok"])
     apply (rule triple_render, simp)
    apply (rule triple_bind [where R = "\<lambda>_. game_ok"])
     apply (rule triple_write, simp)
    apply (rule triple_bind [where R = "\<lambda>_. game_ok"])
     apply (rule triple_drain, simp)
    apply (rule triple_bind [where R = "\<lambda>_. game_ok"])
     apply (rule engine_safe_progress [unfolded engine_safe_def])
    apply (rule triple_bind [where R = "\<lambda>c d. game_ok d \<and> c = can_continue (game d)"])
     apply (rule triple_can_continue, simp)
    subgoal for p a u4 s2 u5 u6 u7 c
      apply (cases c)
       apply simp
       apply (rule triple_bind [where R = "\<lambda>mv d. game_ok d \<and> move_is_valid (game d) (fst mv) (snd mv) = Inr True"])
        apply (rule triple_pre [OF random_move_safe], simp)
       subgoal for cm
         apply (cases cm)
         apply simp
         apply (rule triple_bind [where R = "\<lambda>_. game_ok"])
          apply (rule play_safe)
         apply (rule triple_bind [where R = "\<lambda>_. game_ok"])
          apply (rule triple_can_continue, simp)
         apply (rule triple_if)
          apply (rule triple_bind [where R = "\<lambda>_. game_ok"])
           apply (rule triple_render, simp)
          apply (rule triple_bind [where R = "\<lambda>_. game_ok"])
           apply (rule triple_write, simp)
          apply (rule triple_bind [where R = "\<lambda>_. game_ok"])
           apply (rule triple_write, simp)
          apply (rule triple_bind [where R = "\<lambda>_. game_ok"])
           apply (rule triple_drain, simp)
          apply (rule triple_return, simp)
         apply (rule triple_return, simp)
         done
      apply simp
      apply (rule triple_bind [where R = "\<lambda>_. game_ok"])
       apply (rule triple_write, simp)
      apply (rule triple_bind [where R = "\<lambda>_. game_ok"])
       apply (rule triple_drain, simp)
      apply (rule triple_return, simp)
      done
    done
  done

lemma engine_safe_play: "engine_safe (driver_play n)"
proof (induction n)
  case 0
  show ?case unfolding engine_safe_def by (simp add: triple_running)
next
  case (Suc n)
  show ?case
    unfolding engine_safe_def driver_play.simps
    apply (rule triple_bind [where R = "\<lambda>_. game_ok"])
     apply (rule engine_safe_round [unfolded engine_safe_def])
    apply (rule triple_if)
     apply (rule Suc.IH [unfolded engine_safe_def])
    apply (rule triple_return, simp)
    done
qed

lemma cb_safe:
  "fst (cb n r draws m) \<noteq> Raised AssertionError \<and> reachable (game (snd (cb n r draws m)))"
proof -
  have "io_triple game_ok (io_bind (driver_play n) (\<lambda>_. io_bind close (\<lambda>_. wait_closed)))
          (\<lambda>_. game_ok) (\<lambda>e d. game_ok d \<and> e \<noteq> AssertionError) game_ok"
    apply (rule triple_bind [where R = "\<lambda>_. game_ok"])
     apply (rule engine_safe_play [unfolded engine_safe_def])
    apply (rule triple_bind [where R = "\<lambda>_. game_ok"])
     apply (rule triple_close, simp)
    apply (rule triple_wait_closed, simp)
    done
  moreover have "game_ok (new_driver r draws m)"
    by (simp add: game_ok_def new_driver_def reachable.start)
  ultimately have "case cb n r draws m of (Returned v, d') \<Rightarrow> game_ok d'
      | (Raised e, d') \<Rightarrow> game_ok d' \<and> e \<noteq> AssertionError | (Running, d') \<Rightarrow> game_ok d'"
    unfolding cb_def by (rule io_tripleD)
  then show ?thesis by (auto simp: game_ok_def split: prod.splits outcome.splits)
qed

text \<open>
  Claim C8 says that whenever the pair asked for is invalid, the driver writes
  \<open>Not a valid move.\<close>, asks for both numbers again and leaves the game as it is until
  a valid move comes. The driver takes the engine's predicate at its word: where the
  predicate returns false the loop writes the message and asks again on the same game
  (\<open>validate_step\<close>, \<open>validate_game\<close>), and \<open>play\<close> is never reached with a move the
  predicate rejects (\<open>cb_safe\<close>). But the
  predicate has no lower bound on the pile (claim C1), and two kinds of invalid pairs
  get past the driver. The pair \<open>(-1, 5)\<close>, whose pile index is outside \<open>[0, 3)\<close>, is
  played: the round takes the five objects of the last pile, the computer answers,
  and no rejection is written. On the pair \<open>(-4, 1)\<close> the predicate raises: the round
  ends with \<open>IndexError\<close>, no rejection is written and nothing is asked again. The
  theorem evaluates the round on both.
\<close>

theorem negative_pile_not_rejected:
  "play nim_init (- 1) 5 = (Inr (), \<lparr>piles = [3, 4, 0]\<rparr>) \<and>
   fst (driver_round 1 (new_driver [Line ''-1\<newline>'', Line ''5\<newline>''] (\<lambda>_. 0) 4300)) = Returned True \<and>
   game (snd (driver_round 1 (new_driver [Line ''-1\<newline>'', Line ''5\<newline>''] (\<lambda>_. 0) 4300))) =
     \<lparr>piles = [2, 4, 0]\<rparr> \<and>
   Wrote not_valid \<notin> set (trace (snd (driver_round 1
     (new_driver [Line ''-1\<newline>'', Line ''5\<newline>''] (\<lambda>_. 0) 4300)))) \<and>
   fst (driver_round 1 (new_driver [Line ''-4\<newline>'', Line ''1\<newline>''] (\<lambda>_. 0) 4300)) = Raised IndexError \<and>
   Wrote not_valid \<notin> set (trace (snd (driver_round 1
     (new_driver [Line ''-4\<newline>'', Line ''1\<newline>''] (\<lambda>_. 0) 4300)))) \<and>
   reader (snd (driver_round 1 (new_driver [Line ''-4\<newline>'', Line ''1\<newline>''] (\<lambda>_. 0) 4300))) = []"
  by code_simp

subsection \<open>The state invariant\<close>

lemma cb_invariant: "nim_inv (game (snd (cb n r draws m)))"
  using cb_safe [of n r draws m] by (simp add: reachable_inv)

text \<open>
  Claim C7: the initial state has three piles, none negative; a move that
  \<open>move_is_valid\<close> accepts is applied by \<open>play\<close> and leaves three piles, none
  negative; so every reachable state has three piles, none negative. The engine of a
  session, looked at after any amount of fuel and whatever the outcome, is in a
  reachable state with three piles, none negative.
\<close>

theorem invariant_preserved:
  "nim_inv nim_init \<and>
   (nim_inv g \<and> move_is_valid g p a = Inr True \<longrightarrow>
      (\<exists>g'. play g p a = (Inr (), g') \<and> nim_inv g')) \<and>
   (reachable g \<longrightarrow> nim_inv g) \<and>
   nim_inv (game (snd (cb n r draws m)))"
proof (intro conjI impI)
  show "nim_inv nim_init" by (rule nim_inv_init)
next
  assume h: "nim_inv g \<and> move_is_valid g p a = Inr True"
  with play_valid [of g p a] obtain g' where "play g p a = (Inr (), g')" by auto
  with h show "\<exists>g'. play g p a = (Inr (), g') \<and> nim_inv g'"
    by (auto intro: play_inv)
next
  assume "reachable g" then show "nim_inv g" by (rule reachable_inv)
next
  show "nim_inv (game (snd (cb n r draws m)))" by (rule cb_invariant)
qed

text \<open>
  The move \<open>(2, 5)\<close> on the initial piles, and the session in which the player makes
  that move.
\<close>

theorem invariant_preserved_witness:
  "nim_inv nim_init \<and> move_is_valid nim_init 2 5 = Inr True \<and>
   (\<exists>g'. play nim_init 2 5 = (Inr (), g') \<and> nim_inv g') \<and> reachable nim_init \<and>
   nim_inv (game (snd (cb 3 [Line ''2\<newline>'', Line ''5\<newline>''] (\<lambda>_. 0) 4300)))"
proof -
  have "move_is_valid nim_init 2 5 = Inr True"
    by (simp add: move_is_valid_def nim_init_def py_getitem_def py_index_def)
  with invariant_preserved [of nim_init 2 5 3 "[Line ''2\<newline>'', Line ''5\<newline>'']" "\<lambda>_. 0" 4300]
    reachable.start
  show ?thesis by simp
qed

subsection \<open>A read that fails\<close>

lemma read_abort_bind:
  assumes "read_abort m" and "\<And>v. read_abort (f v)"
  shows "read_abort (io_bind m f)"
  using assms unfolding read_abort_def by (rule triple_bind)

lemma read_abort_write: "read_abort (writer_write s)"
  unfolding read_abort_def by (rule triple_write) (simp add: no_failed_read_def)

lemma read_abort_drain: "read_abort drain"
  unfolding read_abort_def by (rule triple_drain)

lemma read_abort_sleep: "read_abort sleep"
  unfolding read_abort_def by (rule triple_sleep)

lemma read_abort_wait_closed: "read_abort wait_closed"
  unfolding read_abort_def by (rule triple_wait_closed)

lemma read_abort_close: "read_abort close"
  unfolding read_abort_def by (rule triple_close) (simp add: no_failed_read_def)

lemma read_abort_return: "read_abort (io_return v)"
  unfolding read_abort_def by (rule triple_return)

lemma read_abort_running: "read_abort (\<lambda>d. (Running, d))"
  unfolding read_abort_def by (rule triple_running)

lemma read_abort_readline: "read_abort readline"
  unfolding read_abort_def
  by (rule triple_readline) (simp_all add: no_failed_read_def stopped_at_failed_read_def)

lemma read_abort_if:
  "(b \<Longrightarrow> read_abort m1) \<Longrightarrow> (\<not> b \<Longrightarrow> read_abort m2) \<Longrightarrow> read_abort (if b then m1 else m2)"
  by simp

lemma read_abort_builtin_int: "read_abort (builtin_int line)"
  unfolding read_abort_def by (rule triple_builtin_int) simp_all

lemma read_abort_try:
  assumes "read_abort body" and "read_abort handler"
  shows "read_abort (try_except_ValueError body handler)"
  unfolding read_abort_def
proof (rule triple_try [where H = no_failed_read])
  show "io_triple no_failed_read body (\<lambda>_. no_failed_read)
     (\<lambda>e d. if e = ValueError then no_failed_read d
            else no_failed_read d \<or> e = TransportError \<and> stopped_at_failed_read d)
     no_failed_read"
    by (rule triple_post [OF assms(1) [unfolded read_abort_def]]) auto
  show "io_triple no_failed_read handler (\<lambda>_. no_failed_read)
     (\<lambda>e d. no_failed_read d \<or> e = TransportError \<and> stopped_at_failed_read d) no_failed_read"
    using assms(2) by (simp add: read_abort_def)
qed

lemma read_abort_read_int: "read_abort (read_int n prompt)"
proof (induction n)
  case 0
  show ?case by (simp add: read_abort_running)
next
  case (Suc n)
  show ?case
    unfolding read_int.simps
    by (intro read_abort_bind read_abort_try read_abort_write read_abort_drain
        read_abort_readline read_abort_builtin_int read_abort_return Suc.IH)
qed

lemma read_abort_ask_move: "read_abort (ask_move n)"
  unfolding ask_move_def
  by (intro read_abort_bind read_abort_read_int read_abort_return)

lemma read_abort_move_is_valid: "read_abort (nim_move_is_valid p a)"
  unfolding read_abort_def by (rule triple_move_is_valid) simp_all

lemma read_abort_can_continue: "read_abort nim_can_continue"
  unfolding read_abort_def by (rule triple_can_continue)

lemma read_abort_render: "read_abort nim_render"
  unfolding read_abort_def by (rule triple_render)

lemma read_abort_play: "read_abort (nim_play p a)"
  unfolding read_abort_def
  by (rule io_tripleI)
     (auto simp: nim_play_def no_failed_read_def split: prod.splits sum.splits)

lemma read_abort_random_move: "read_abort nim_random_move"
  unfolding read_abort_def
  by (rule io_tripleI)
     (auto simp: nim_random_move_def no_failed_read_def split: prod.splits sum.splits)

lemma read_abort_for_loop:
  assumes "\<And>x. read_abort (body x)"
  shows "read_abort (for_loop xs body)"
  by (induction xs) (simp_all add: read_abort_return read_abort_bind assms)

lemma read_abort_progress: "read_abort (fake_progress_bar prompt)"
  unfolding fake_progress_bar_def
  by (intro read_abort_bind read_abort_for_loop read_abort_write read_abort_drain read_abort_sleep)

lemma read_abort_validate: "read_abort (validate n mv)"
proof (induction n arbitrary: mv)
  case 0
  show ?case by (simp add: read_abort_running)
next
  case (Suc n)
  show ?case
    unfolding validate.simps
    by (intro read_abort_bind read_abort_if read_abort_move_is_valid read_abort_return
        read_abort_write read_abort_ask_move read_abort_drain Suc.IH)
qed

lemma read_abort_case_prod:
  assumes "\<And>a b. read_abort (f a b)"
  shows "read_abort (case_prod f p)"
  using assms by (cases p) simp

lemma read_abort_round: "read_abort (driver_round n)"
  unfolding driver_round_def
  by (intro read_abort_bind read_abort_if read_abort_case_prod read_abort_render read_abort_write
      read_abort_drain read_abort_ask_move read_abort_validate read_abort_play
      read_abort_progress read_abort_can_continue read_abort_random_move read_abort_return)

lemma read_abort_driver_play: "read_abort (driver_play n)"
proof (induction n)
  case 0
  show ?case by (simp add: read_abort_running)
next
  case (Suc n)
  show ?case
    unfolding driver_play.simps
    by (intro read_abort_bind read_abort_if read_abort_round read_abort_return Suc.IH)
qed

lemma cb_read_abort:
  assumes "ReadFailed \<in> set (trace (snd (cb n r draws m)))"
  shows "fst (cb n r draws m) = Raised TransportError \<and>
         stopped_at_failed_read (snd (cb n r draws m))"
proof -
  have "read_abort (io_bind (driver_play n) (\<lambda>_. io_bind close (\<lambda>_. wait_closed)))"
    by (intro read_abort_bind read_abort_driver_play read_abort_close read_abort_wait_closed)
  moreover have "no_failed_read (new_driver r draws m)"
    by (simp add: no_failed_read_def new_driver_def)
  ultimately have "case cb n r draws m of (Returned v, d') \<Rightarrow> no_failed_read d'
      | (Raised e, d') \<Rightarrow> no_failed_read d' \<or> (e = TransportError \<and> stopped_at_failed_read d')
      | (Running, d') \<Rightarrow> no_failed_read d'"
    unfolding cb_def read_abort_def by (rule io_tripleD)
  with assms show ?thesis
    by (auto simp: no_failed_read_def split: prod.splits outcome.splits)
qed

text \<open>
  Claim C2 says that a closed stream aborts the session at once, without a retry and
  without further writes. At the end of the file \<open>readline\<close> returns the empty bytes
  object, which is not an integer to \<open>_read_int\<close>: on a stream that is closed from the
  start the session writes the invalid-integer message, prompts again and reads
  again, and is still in the loop when the fuel of two passes is used up.
\<close>

theorem stream_closed_counterexample:
  "fst (cb 3 [] (\<lambda>_. 0) 4300) = Running \<and>
   tl (trace (snd (cb 3 [] (\<lambda>_. 0) 4300))) =
     [Wrote (pile_prompt @ ''\<newline>> ''), ReadOk [], Wrote invalid_integer,
      Wrote (pile_prompt @ ''\<newline>> ''), ReadOk [], Wrote invalid_integer]"
  by code_simp

text \<open>
  Claim C2, amended: when \<open>readline\<close> raises while the session waits for a line,
  \<open>_read_int\<close> raises with it right after its prompt; and in every session whose
  trace has a failed read, the outcome is that error, the failed read is the last
  event of the trace and the only failed read: no retry, no write and no close comes
  after it.
\<close>

theorem read_error_aborts:
  "(reader d = Broken # r \<longrightarrow>
      read_int (Suc n) prompt d =
        (Raised TransportError,
         d\<lparr>reader := r, trace := trace d @ [Wrote (prompt @ ''\<newline>> ''), ReadFailed]\<rparr>)) \<and>
   (ReadFailed \<in> set (trace (snd (cb k rd draws m))) \<longrightarrow>
      fst (cb k rd draws m) = Raised TransportError \<and>
      stopped_at_failed_read (snd (cb k rd draws m)))"
  using read_int_broken [of d r n prompt] cb_read_abort [of k rd draws m] by blast

text \<open>
  A session that reads \<open>abc\<close>, is prompted again, and then fails to read.
\<close>

theorem read_error_aborts_witness:
  "ReadFailed \<in> set (trace (snd (cb 3 [Line ''abc\<newline>'', Broken, Line ''1\<newline>''] (\<lambda>_. 0) 4300))) \<and>
   fst (cb 3 [Line ''abc\<newline>'', Broken, Line ''1\<newline>''] (\<lambda>_. 0) 4300) = Raised TransportError \<and>
   stopped_at_failed_read (snd (cb 3 [Line ''abc\<newline>'', Broken, Line ''1\<newline>''] (\<lambda>_. 0) 4300)) \<and>
   fst (read_int 1 pile_prompt (new_driver [Broken] (\<lambda>_. 0) 4300)) = Raised TransportError"
proof -
  have h: "ReadFailed \<in> set (trace (snd (cb 3 [Line ''abc\<newline>'', Broken, Line ''1\<newline>''] (\<lambda>_. 0) 4300)))"
    by code_simp
  have b: "reader (new_driver [Broken] (\<lambda>_. 0) 4300) = Broken # []"
    by (simp add: new_driver_def)
  from read_error_aborts [of "new_driver [Broken] (\<lambda>_. 0) 4300" "[]" 0 pile_prompt
      3 "[Line ''abc\<newline>'', Broken, Line ''1\<newline>'']" "\<lambda>_. 0" 4300] h b
  show ?thesis by simp
qed

end
